theory Spec2Isabelle
  imports Main "HOL-Library.Sublist"
begin

section \<open>Literals, clauses and Python's sets\<close>

text \<open>
  A literal is the Python triple \<open>(row, col, polarity)\<close>; a clause is a tuple of literals.
  \<open>KB\<close> and \<open>KB0\<close> are Python sets of such tuples, so membership is equality of
  tuples (order matters), while \<open>set(clause)\<close> forgets the order of the literals.
\<close>

type_synonym literal = "int \<times> int \<times> bool"
type_synonym clause = "literal list"

datatype py_error = IndexError | KeyError | ValueError

text \<open>
  The order in which Python walks a set is not fixed by the language. A stored set is
  modelled by a list of its members, and every walk over a set (a \<open>for\<close> loop,
  \<open>tuple(s)\<close>, \<open>list(s)\<close>) goes through a function that picks the order. The
  theorems hold for every such function that enumerates the members once each.
\<close>

type_synonym 'a iter = "'a list \<Rightarrow> 'a list"

record order =
  lit_order :: "literal iter"
  clause_order :: "clause iter"

definition iter_ok :: "'a iter \<Rightarrow> bool" where
  "iter_ok it = (\<forall>xs. set (it xs) = set xs \<and> distinct (it xs))"

definition order_ok :: "order \<Rightarrow> bool" where
  "order_ok od = (iter_ok (lit_order od) \<and> iter_ok (clause_order od))"

text \<open>The order used where a concrete one is needed: first occurrence first.\<close>

definition first_seen :: order where
  "first_seen = \<lparr>lit_order = remdups, clause_order = remdups\<rparr>"

text \<open>\<open>s.add(x)\<close> and \<open>s.remove(x)\<close>; the latter raises KeyError on a missing member.\<close>

definition set_add :: "'a \<Rightarrow> 'a list \<Rightarrow> 'a list" where
  "set_add x xs = (if x \<in> set xs then xs else xs @ [x])"

definition set_remove :: "'a \<Rightarrow> 'a list \<Rightarrow> py_error + 'a list" where
  "set_remove x xs = (if x \<in> set xs then Inr (removeAll x xs) else Inl KeyError)"

text \<open>Python's truth value of \<open>None\<close> or a tuple: only a non-empty tuple is true.\<close>

definition truthy :: "clause option \<Rightarrow> bool" where
  "truthy r = (case r of None \<Rightarrow> False | Some c \<Rightarrow> c \<noteq> [])"

text \<open>\<open>(l[0], l[1], not l[2])\<close>\<close>

fun negate :: "literal \<Rightarrow> literal" where
  "negate (r, c, b) = (r, c, \<not> b)"

section \<open>subsumption_checking and resolve\<close>

definition subsumption_checking :: "literal iter \<Rightarrow> clause \<Rightarrow> clause \<Rightarrow> clause option" where
  "subsumption_checking li clause1 clause2 =
     (if set clause1 \<subseteq> set clause2 then Some (li clause1)
      else if set clause2 \<subseteq> set clause1 then Some (li clause2)
      else None)"

text \<open>
  The loop of \<open>resolve\<close> walks \<open>set(clause1)\<close> and keeps the last literal whose
  complement is in \<open>clause2\<close>, counting them; a literal is a non-empty tuple, so
  \<open>literal_to_remove\<close> is true as soon as it is set.
\<close>

definition complementary_literals :: "literal iter \<Rightarrow> clause \<Rightarrow> clause \<Rightarrow> literal list" where
  "complementary_literals li clause1 clause2 = filter (\<lambda>literal1. negate literal1 \<in> set clause2) (li clause1)"

definition resolve :: "literal iter \<Rightarrow> clause \<Rightarrow> clause \<Rightarrow> clause option" where
  "resolve li clause1 clause2 =
     (case complementary_literals li clause1 clause2 of
        [literal_to_remove] \<Rightarrow>
          Some (li (removeAll literal_to_remove (li clause1)
                    @ removeAll (negate literal_to_remove) (li clause2)))
      | _ \<Rightarrow> None)"

definition matching_clauses :: "literal iter \<Rightarrow> clause \<Rightarrow> clause \<Rightarrow> clause option \<times> bool" where
  "matching_clauses li clause1 clause2 =
     (let clause = subsumption_checking li clause1 clause2 in
      if truthy clause then (clause, True) else (resolve li clause1 clause2, False))"

text \<open>The complementary pairs two clauses share, read as sets of literals.\<close>

definition complementary_pairs :: "clause \<Rightarrow> clause \<Rightarrow> literal set" where
  "complementary_pairs a b = {l \<in> set a. negate l \<in> set b}"

definition tautology_free :: "clause \<Rightarrow> bool" where
  "tautology_free a = (complementary_pairs a a = {})"

section \<open>The board (MineSweeperGame)\<close>

record cell_state =
  mine :: bool
  revealed :: bool
  marked :: bool

record minesweeper =
  rows :: int
  cols :: int
  mines :: int
  board :: "cell_state list list"

text \<open>\<open>xs[i]\<close>: a negative index counts from the end, an index out of range raises.\<close>

definition py_index :: "'a list \<Rightarrow> int \<Rightarrow> py_error + 'a" where
  "py_index xs i =
     (if 0 \<le> i \<and> i < int (length xs) then Inr (xs ! nat i)
      else if - int (length xs) \<le> i \<and> i < 0 then Inr (xs ! nat (i + int (length xs)))
      else Inl IndexError)"

definition py_position :: "'a list \<Rightarrow> int \<Rightarrow> nat" where
  "py_position xs i = (if i < 0 then nat (i + int (length xs)) else nat i)"

definition cell_at :: "minesweeper \<Rightarrow> int \<Rightarrow> int \<Rightarrow> py_error + cell_state" where
  "cell_at g row col =
     (case py_index (board g) row of
        Inl e \<Rightarrow> Inl e
      | Inr line \<Rightarrow> py_index line col)"

definition put_cell :: "minesweeper \<Rightarrow> int \<Rightarrow> int \<Rightarrow> cell_state \<Rightarrow> minesweeper" where
  "put_cell g row col cell =
     (let i = py_position (board g) row; line = board g ! i
      in g\<lparr>board := (board g)[i := line[py_position line col := cell]]\<rparr>)"

definition game_mark_safe :: "minesweeper \<Rightarrow> int \<Rightarrow> int \<Rightarrow> py_error + minesweeper" where
  "game_mark_safe g row col =
     (case cell_at g row col of
        Inl e \<Rightarrow> Inl e
      | Inr cell \<Rightarrow>
          Inr (if \<not> revealed cell then put_cell g row col (cell\<lparr>revealed := True\<rparr>) else g))"

definition game_mark_mine :: "minesweeper \<Rightarrow> int \<Rightarrow> int \<Rightarrow> py_error + minesweeper" where
  "game_mark_mine g row col =
     (case cell_at g row col of
        Inl e \<Rightarrow> Inl e
      | Inr cell \<Rightarrow>
          Inr (if \<not> marked cell then put_cell g row col (cell\<lparr>marked := True\<rparr>) else g))"

text \<open>The two nested \<open>range\<close> loops of the hint query, in the order they run.\<close>

definition neighborhood :: "minesweeper \<Rightarrow> int \<Rightarrow> int \<Rightarrow> (int \<times> int) list" where
  "neighborhood g row col =
     concat (map (\<lambda>r. map (\<lambda>c. (r, c)) [max (col - 1) 0 .. min (col + 2) (cols g) - 1])
                 [max (row - 1) 0 .. min (row + 2) (rows g) - 1])"

fun scan_neighbors :: "minesweeper \<Rightarrow> int \<Rightarrow> int \<Rightarrow> (int \<times> int) list
    \<Rightarrow> py_error + ((int \<times> int) list \<times> int)" where
  "scan_neighbors g row col [] = Inr ([], 0)"
| "scan_neighbors g row col ((r, c) # rest) =
     (if r \<noteq> row \<or> c \<noteq> col then
        (case cell_at g r c of
           Inl e \<Rightarrow> Inl e
         | Inr cell \<Rightarrow>
             (case scan_neighbors g row col rest of
                Inl e \<Rightarrow> Inl e
              | Inr (neighbors, mine_count) \<Rightarrow>
                  if \<not> revealed cell \<and> \<not> marked cell
                  then Inr ((r, c) # neighbors, (if mine cell then mine_count + 1 else mine_count))
                  else Inr (neighbors, mine_count)))
      else scan_neighbors g row col rest)"

definition game_get_unmarked_neighbors_and_mine_count ::
    "minesweeper \<Rightarrow> int \<Rightarrow> int \<Rightarrow> py_error + ((int \<times> int) list \<times> int)" where
  "game_get_unmarked_neighbors_and_mine_count g row col =
     scan_neighbors g row col (neighborhood g row col)"

section \<open>The player (MineSweeperPlayer)\<close>

record player =
  KB :: "clause list"
  KB0 :: "clause list"
  game :: minesweeper
  KB_length_history :: "nat list"

fun add_all :: "'a list \<Rightarrow> 'a list \<Rightarrow> 'a list" where
  "add_all [] kb = kb"
| "add_all (c # cs) kb = add_all cs (set_add c kb)"

fun remove_all :: "'a list \<Rightarrow> 'a list \<Rightarrow> py_error + 'a list" where
  "remove_all [] kb = Inr kb"
| "remove_all (c # cs) kb =
     (case set_remove c kb of Inl e \<Rightarrow> Inl e | Inr kb' \<Rightarrow> remove_all cs kb')"

text \<open>
  \<open>__init__\<close>: the safe cells are what \<open>game.get_initial_safe_cells()\<close> returned (it
  draws them at random).
\<close>

definition init_player :: "minesweeper \<Rightarrow> (int \<times> int) list \<Rightarrow> player" where
  "init_player g initial_safe_cells =
     \<lparr>KB = add_all (map (\<lambda>cell. [(fst cell, snd cell, False)]) initial_safe_cells) [],
      KB0 = [], game = g, KB_length_history = []\<rparr>"

subsection \<open>unit_propagation\<close>

text \<open>\<open>tuple(literal for literal in clause if literal != l)\<close>\<close>

definition without :: "literal \<Rightarrow> clause \<Rightarrow> clause" where
  "without l clause = filter (\<lambda>literal. literal \<noteq> l) clause"

text \<open>
  The loop over \<open>KB\<close> for a single-literal clause \<open>(l,)\<close>: the clauses to add and the
  clauses to remove, in the order they are met.
\<close>

fun scan_KB :: "literal \<Rightarrow> clause list \<Rightarrow> clause list \<times> clause list" where
  "scan_KB l [] = ([], [])"
| "scan_KB l (clause2 # rest) =
     (let (clauses_to_add, clauses_to_remove) = scan_KB l rest in
      if l \<in> set clause2 then (clauses_to_add, clause2 # clauses_to_remove)
      else if negate l \<in> set clause2
        then (without (negate l) clause2 # clauses_to_add, clause2 # clauses_to_remove)
      else (clauses_to_add, clauses_to_remove))"

text \<open>
  The loop over \<open>KB0\<close> for any other clause: it stops (\<open>break\<close>) at the first committed
  fact whose literal is in the clause; \<open>clause0[0]\<close> raises on an empty tuple.
\<close>

fun scan_KB0 :: "clause \<Rightarrow> clause list \<Rightarrow> py_error + clause list" where
  "scan_KB0 clause [] = Inr []"
| "scan_KB0 clause (clause0 # rest) =
     (case clause0 of
        [] \<Rightarrow> Inl IndexError
      | l0 # _ \<Rightarrow>
          if l0 \<in> set clause then Inr []
          else if negate l0 \<in> set clause then
            (case scan_KB0 clause rest of
               Inl e \<Rightarrow> Inl e
             | Inr clauses_to_add \<Rightarrow> Inr (without (negate l0) clause # clauses_to_add))
          else scan_KB0 clause rest)"

definition unit_propagation :: "order \<Rightarrow> clause \<Rightarrow> player \<Rightarrow> py_error + player" where
  "unit_propagation od clause st =
     (case (case clause of
              [l] \<Rightarrow> Inr (scan_KB l (clause_order od (KB st)))
            | _ \<Rightarrow> (case scan_KB0 clause (clause_order od (KB0 st)) of
                      Inl e \<Rightarrow> Inl e
                    | Inr clauses_to_add \<Rightarrow> Inr (clauses_to_add, [])))
      of
        Inl e \<Rightarrow> Inl e
      | Inr (clauses_to_add, clauses_to_remove) \<Rightarrow>
          (case remove_all (clause_order od (remdups clauses_to_remove))
                  (add_all (clause_order od (remdups clauses_to_add)) (KB st)) of
             Inl e \<Rightarrow> Inl e
           | Inr kb \<Rightarrow> Inr (st\<lparr>KB := kb\<rparr>)))"

subsection \<open>insert_clause_to_KB\<close>

text \<open>
  The resolution loop over \<open>KB0\<close>: it stops at the first committed fact that gives no
  resolvent, or an empty one (\<open>not new_clause\<close>).
\<close>

fun resolve_KB0 :: "literal iter \<Rightarrow> clause \<Rightarrow> clause list \<Rightarrow> clause" where
  "resolve_KB0 li clause [] = clause"
| "resolve_KB0 li clause (clause0 # rest) =
     (let new_clause = resolve li clause clause0 in
      if \<not> truthy new_clause then clause else resolve_KB0 li (the new_clause) rest)"

text \<open>
  The subsumption loop over \<open>KB\<close>: \<open>Redundant\<close> is its \<open>return None\<close>, \<open>Keep r\<close> is
  the value of \<open>clause_to_remove\<close> when the loop ends or breaks.
\<close>

datatype subsumption_outcome = Redundant | Keep "clause option"

fun subsumption_scan :: "literal iter \<Rightarrow> clause \<Rightarrow> clause list \<Rightarrow> subsumption_outcome" where
  "subsumption_scan li clause [] = Keep None"
| "subsumption_scan li clause (clause2 # rest) =
     (let strict_clause = subsumption_checking li clause clause2 in
      if \<not> truthy strict_clause then subsumption_scan li clause rest
      else if strict_clause = Some clause then Keep (Some clause2)
      else if strict_clause = Some clause2 then Redundant
      else subsumption_scan li clause rest)"

definition insert_clause_to_KB ::
    "order \<Rightarrow> clause \<Rightarrow> player \<Rightarrow> py_error + (player \<times> clause option)" where
  "insert_clause_to_KB od clause st =
     (if clause \<in> set (KB st) \<or> clause \<in> set (KB0 st) then Inr (st, None)
      else
        (case unit_propagation od clause st of
           Inl e \<Rightarrow> Inl e
         | Inr st1 \<Rightarrow>
             (let clause' = resolve_KB0 (lit_order od) clause (clause_order od (KB0 st1)) in
              case subsumption_scan (lit_order od) clause' (clause_order od (KB st1)) of
                Redundant \<Rightarrow> Inr (st1, None)
              | Keep clause_to_remove \<Rightarrow>
                  (case (if truthy clause_to_remove
                         then set_remove (the clause_to_remove) (KB st1)
                         else Inr (KB st1)) of
                     Inl e \<Rightarrow> Inl e
                   | Inr kb \<Rightarrow> Inr (st1\<lparr>KB := set_add clause' kb\<rparr>, Some clause')))))"

text \<open>A run of calls of \<open>insert_clause_to_KB\<close>, the results dropped.\<close>

fun insert_all :: "order \<Rightarrow> clause list \<Rightarrow> player \<Rightarrow> py_error + player" where
  "insert_all od [] st = Inr st"
| "insert_all od (clause # rest) st =
     (case insert_clause_to_KB od clause st of
        Inl e \<Rightarrow> Inl e
      | Inr (st', _) \<Rightarrow> insert_all od rest st')"

subsection \<open>generate_clauses\<close>

text \<open>\<open>itertools.combinations(xs, r)\<close>, in its order; a negative \<open>r\<close> raises ValueError.\<close>

fun combinations :: "'a list \<Rightarrow> nat \<Rightarrow> 'a list list" where
  "combinations xs 0 = [[]]"
| "combinations [] (Suc r) = []"
| "combinations (x # xs) (Suc r) = map ((#) x) (combinations xs r) @ combinations xs (Suc r)"

definition py_combinations :: "'a list \<Rightarrow> int \<Rightarrow> py_error + 'a list list" where
  "py_combinations xs r = (if r < 0 then Inl ValueError else Inr (combinations xs (nat r)))"

definition lit_of :: "bool \<Rightarrow> int \<times> int \<Rightarrow> literal" where
  "lit_of polarity cell = (fst cell, snd cell, polarity)"

text \<open>The clauses \<open>generate_clauses\<close> hands to \<open>insert_clause_to_KB\<close>, in order.\<close>

definition positive_clauses :: "(int \<times> int) list \<Rightarrow> int \<Rightarrow> py_error + clause list" where
  "positive_clauses unmarked_neighbors n =
     (case py_combinations unmarked_neighbors (int (length unmarked_neighbors) - n + 1) of
        Inl e \<Rightarrow> Inl e
      | Inr combs \<Rightarrow> Inr (map (map (lit_of True)) combs))"

definition negative_clauses :: "(int \<times> int) list \<Rightarrow> int \<Rightarrow> py_error + clause list" where
  "negative_clauses unmarked_neighbors n =
     (case py_combinations unmarked_neighbors (n + 1) of
        Inl e \<Rightarrow> Inl e
      | Inr combs \<Rightarrow> Inr (map (map (lit_of False)) combs))"

definition generate_clauses ::
    "order \<Rightarrow> (int \<times> int) list \<Rightarrow> int \<Rightarrow> player \<Rightarrow> py_error + player" where
  "generate_clauses od unmarked_neighbors n st =
     (let m = int (length unmarked_neighbors) in
      if n = m then insert_all od (map (\<lambda>cell. [lit_of True cell]) unmarked_neighbors) st
      else if n = 0 then insert_all od (map (\<lambda>cell. [lit_of False cell]) unmarked_neighbors) st
      else
        (case positive_clauses unmarked_neighbors n of
           Inl e \<Rightarrow> Inl e
         | Inr pos \<Rightarrow>
             (case insert_all od pos st of
                Inl e \<Rightarrow> Inl e
              | Inr st1 \<Rightarrow>
                  (case negative_clauses unmarked_neighbors n of
                     Inl e \<Rightarrow> Inl e
                   | Inr neg \<Rightarrow> insert_all od neg st1))))"

subsection \<open>Stagnation, guessing and the turn\<close>

text \<open>
  \<open>get_single_clause_count\<close> counts the single-literal clauses and has no \<open>return\<close>:
  its value is \<open>None\<close>.
\<close>

definition get_single_clause_count :: "player \<Rightarrow> nat option" where
  "get_single_clause_count st =
     (let single_clause_count = length (filter (\<lambda>clause. length clause = 1) (remdups (KB st)))
      in None)"

definition is_stuck :: "player \<Rightarrow> bool \<times> player" where
  "is_stuck st =
     (let appended = KB_length_history st @ [length (remdups (KB st))];
          history = (if length appended > 5 then tl appended else appended)
      in (length (remdups history) = 1 \<and> length history = 5,
          st\<lparr>KB_length_history := history\<rparr>))"

fun first_negative :: "clause \<Rightarrow> literal option" where
  "first_negative [] = None"
| "first_negative (literal # rest) =
     (if snd (snd literal) = False then Some literal else first_negative rest)"

fun guess_with_length :: "nat \<Rightarrow> clause list \<Rightarrow> (literal \<times> clause) option" where
  "guess_with_length clause_len_limit [] = None"
| "guess_with_length clause_len_limit (clause # rest) =
     (if length clause = clause_len_limit then
        (case first_negative clause of
           Some literal \<Rightarrow> Some (literal, clause)
         | None \<Rightarrow> guess_with_length clause_len_limit rest)
      else guess_with_length clause_len_limit rest)"

function guess_loop :: "nat \<Rightarrow> nat \<Rightarrow> clause list \<Rightarrow> (literal \<times> clause) option" where
  "guess_loop clause_len_limit max_clause_len kb =
     (if clause_len_limit \<le> max_clause_len then
        (case guess_with_length clause_len_limit kb of
           Some found \<Rightarrow> Some found
         | None \<Rightarrow> guess_loop (clause_len_limit + 1) max_clause_len kb)
      else None)"
  by pat_completeness auto
termination
  by (relation "measure (\<lambda>(clause_len_limit, max_clause_len, kb). Suc max_clause_len - clause_len_limit)") auto

declare guess_loop.simps [simp del]

definition make_safe_guess :: "order \<Rightarrow> player \<Rightarrow> (literal \<times> clause) option" where
  "make_safe_guess od st =
     (let kb = clause_order od (KB st);
          max_clause_len = fold (\<lambda>clause m. if length clause > m then length clause else m) kb 0
      in guess_loop 2 max_clause_len kb)"

subsection \<open>pairwise_matching_KB0\<close>

text \<open>
  The double loop over \<open>list(KB0)\<close> and \<open>list(KB)\<close>: \<open>Inl clause\<close> is the early exit on
  a clause of \<open>KB\<close> equal to a committed fact, \<open>Inr\<close> the collected sets.
\<close>

fun match_pairs :: "literal iter \<Rightarrow> (clause \<times> clause) list \<Rightarrow> clause list \<Rightarrow> clause list
    \<Rightarrow> clause + (clause list \<times> clause list)" where
  "match_pairs li [] clauses_to_add clauses_to_remove = Inr (clauses_to_add, clauses_to_remove)"
| "match_pairs li ((clause0, clause) # rest) clauses_to_add clauses_to_remove =
     (if clause0 = clause then Inl clause
      else
        (let (new_clause, is_strict) = matching_clauses li clause0 clause in
         if is_strict then
           (if new_clause = Some clause0
            then match_pairs li rest clauses_to_add (clauses_to_remove @ [clause])
            else match_pairs li rest clauses_to_add clauses_to_remove)
         else if truthy new_clause
           then match_pairs li rest (clauses_to_add @ [the new_clause]) clauses_to_remove
         else match_pairs li rest clauses_to_add clauses_to_remove))"

definition pairwise_matching_KB0 :: "order \<Rightarrow> player \<Rightarrow> py_error + player" where
  "pairwise_matching_KB0 od st =
     (let kb = clause_order od (KB st); kb0 = clause_order od (KB0 st) in
      case match_pairs (lit_order od) (concat (map (\<lambda>clause0. map (\<lambda>clause. (clause0, clause)) kb) kb0)) [] [] of
        Inl clause \<Rightarrow>
          (case set_remove clause (KB st) of
             Inl e \<Rightarrow> Inl e
           | Inr kb' \<Rightarrow> Inr (st\<lparr>KB := kb'\<rparr>))
      | Inr (clauses_to_add, clauses_to_remove) \<Rightarrow>
          (case remove_all (clause_order od (remdups clauses_to_remove)) (KB st) of
             Inl e \<Rightarrow> Inl e
           | Inr kb' \<Rightarrow> insert_all od (clause_order od (remdups clauses_to_add)) (st\<lparr>KB := kb'\<rparr>)))"

subsection \<open>game_move\<close>

definition game_move :: "order \<Rightarrow> player \<Rightarrow> py_error + (player \<times> (int \<times> int) option)" where
  "game_move od st0 =
     (let single_clause_count = get_single_clause_count st0;
          (stuck, st) = is_stuck st0
      in
      if stuck \<and> (single_clause_count = None \<or> single_clause_count = Some 0) then
        (case make_safe_guess od st of
           None \<Rightarrow> Inr (st, None)
         | Some (guess_safe_literal, guess_clause) \<Rightarrow>
             (case set_remove guess_clause (KB st) of
                Inl e \<Rightarrow> Inl e
              | Inr kb \<Rightarrow>
                  (case game_mark_safe (game st) (fst guess_safe_literal) (fst (snd guess_safe_literal)) of
                     Inl e \<Rightarrow> Inl e
                   | Inr g \<Rightarrow>
                       (case game_get_unmarked_neighbors_and_mine_count g
                               (fst guess_safe_literal) (fst (snd guess_safe_literal)) of
                          Inl e \<Rightarrow> Inl e
                        | Inr (unmarked_neighbors, n) \<Rightarrow>
                            (case generate_clauses od unmarked_neighbors n (st\<lparr>KB := kb, game := g\<rparr>) of
                               Inl e \<Rightarrow> Inl e
                             | Inr st2 \<Rightarrow>
                                 Inr (st2\<lparr>KB0 := set_add [guess_safe_literal] (KB0 st2)\<rparr>,
                                      Some (fst guess_safe_literal, fst (snd guess_safe_literal))))))))
      else
        (case find (\<lambda>clause. length clause = 1) (clause_order od (KB st)) of
           Some single_literal_clause \<Rightarrow>
             (let literal = hd single_literal_clause in
              case (if \<not> snd (snd literal) then
                      (case game_mark_safe (game st) (fst literal) (fst (snd literal)) of
                         Inl e \<Rightarrow> Inl e
                       | Inr g \<Rightarrow>
                           (case game_get_unmarked_neighbors_and_mine_count g (fst literal) (fst (snd literal)) of
                              Inl e \<Rightarrow> Inl e
                            | Inr (unmarked_neighbors, n) \<Rightarrow>
                                generate_clauses od unmarked_neighbors n (st\<lparr>game := g\<rparr>)))
                    else
                      (case game_mark_mine (game st) (fst literal) (fst (snd literal)) of
                         Inl e \<Rightarrow> Inl e
                       | Inr g \<Rightarrow> Inr (st\<lparr>game := g\<rparr>))) of
                Inl e \<Rightarrow> Inl e
              | Inr st2 \<Rightarrow>
                  (case set_remove single_literal_clause (KB st2) of
                     Inl e \<Rightarrow> Inl e
                   | Inr kb \<Rightarrow>
                       Inr (st2\<lparr>KB0 := set_add single_literal_clause (KB0 st2), KB := kb\<rparr>,
                            Some (fst literal, fst (snd literal)))))
         | None \<Rightarrow>
             (case pairwise_matching_KB0 od st of
                Inl e \<Rightarrow> Inl e
              | Inr st2 \<Rightarrow> Inr (st2, None))))"

section \<open>Truth of clauses on a board\<close>

text \<open>
  An assignment says which cells are mines. A literal holds on it when its polarity is
  the cell's; a clause is satisfied when one of its literals holds.
\<close>

definition holds :: "(int \<times> int \<Rightarrow> bool) \<Rightarrow> literal \<Rightarrow> bool" where
  "holds \<sigma> l = (\<sigma> (fst l, fst (snd l)) = snd (snd l))"

definition satisfied :: "(int \<times> int \<Rightarrow> bool) \<Rightarrow> clause \<Rightarrow> bool" where
  "satisfied \<sigma> c = (\<exists>l\<in>set c. holds \<sigma> l)"

section \<open>Sample boards and states\<close>

definition hidden :: "bool \<Rightarrow> cell_state" where
  "hidden m = \<lparr>mine = m, revealed = False, marked = False\<rparr>"

definition shown :: cell_state where
  "shown = \<lparr>mine = False, revealed = True, marked = False\<rparr>"

text \<open>A 3 by 3 board with mines at (0,0) and (2,2), nothing revealed.\<close>

definition board3 :: minesweeper where
  "board3 = \<lparr>rows = 3, cols = 3, mines = 2,
     board = [[hidden True, hidden False, hidden False],
              [hidden False, hidden False, hidden False],
              [hidden False, hidden False, hidden True]]\<rparr>"

text \<open>The player right after \<open>__init__\<close> on a game that offers no safe cell: both sets empty.\<close>

definition blank :: player where
  "blank = init_player board3 []"

text \<open>A corridor of one row and six cells with a mine in the last cell.\<close>

definition corridor :: minesweeper where
  "corridor = \<lparr>rows = 1, cols = 6, mines = 1,
     board = [[hidden False, hidden False, hidden False, hidden False, hidden False, hidden True]]\<rparr>"

text \<open>
  The corridor's player after four turns from the safe cell (0,0): the cells (0,0) to
  (0,3) are revealed and committed, (0,4) is known to be safe and waits in \<open>KB\<close>.
\<close>

definition stalled :: player where
  "stalled = \<lparr>KB = [[(0, 4, False)]],
     KB0 = [[(0, 0, False)], [(0, 1, False)], [(0, 2, False)], [(0, 3, False)]],
     game = corridor\<lparr>board := [[shown, shown, shown, shown, hidden False, hidden True]]\<rparr>,
     KB_length_history = [1, 1, 1, 1]\<rparr>"

text \<open>A run of turns, with the cell each turn reports.\<close>

fun game_moves :: "order \<Rightarrow> nat \<Rightarrow> player \<Rightarrow> py_error + (player \<times> (int \<times> int) option list)" where
  "game_moves od 0 st = Inr (st, [])"
| "game_moves od (Suc k) st =
     (case game_move od st of
        Inl e \<Rightarrow> Inl e
      | Inr (st', cell) \<Rightarrow>
          (case game_moves od k st' of
             Inl e \<Rightarrow> Inl e
           | Inr (st'', cells) \<Rightarrow> Inr (st'', cell # cells)))"

text \<open>
  The clause that \<open>insert_clause_to_KB\<close> finally checks and stores: the incoming clause
  after the resolution loop over \<open>KB0\<close>.
\<close>

definition final_clause :: "order \<Rightarrow> clause \<Rightarrow> player \<Rightarrow> clause" where
  "final_clause od clause st = resolve_KB0 (lit_order od) clause (clause_order od (KB0 st))"

text \<open>
  The end-to-end scenario: the 3 by 3 board with its centre revealed, and the eight
  neighbours of the centre in the order the hint query lists them.
\<close>

definition board3_opened :: minesweeper where
  "board3_opened = board3\<lparr>board :=
     [[hidden True, hidden False, hidden False],
      [hidden False, shown, hidden False],
      [hidden False, hidden False, hidden True]]\<rparr>"

definition cells8 :: "(int \<times> int) list" where
  "cells8 = [(0, 0), (0, 1), (0, 2), (1, 0), (1, 2), (2, 0), (2, 1), (2, 2)]"

text \<open>The assignment with a single mine, at (0,0).\<close>

definition one_mine :: "int \<times> int \<Rightarrow> bool" where
  "one_mine cell = (cell = (0, 0))"

text \<open>Sample states: \<open>KB\<close> and \<open>KB0\<close> filled in by hand on the blank player.\<close>

definition kb_B_after_not_A :: player where
  "kb_B_after_not_A = blank\<lparr>KB := [[(0, 1, True)]], KB0 := [[(0, 0, False)]]\<rparr>"

definition kb_AB_after_not_A :: player where
  "kb_AB_after_not_A = blank\<lparr>KB := [[(0, 0, True), (0, 1, True)]], KB0 := [[(0, 0, False)]]\<rparr>"

definition kb0_not_A_not_B :: player where
  "kb0_not_A_not_B = blank\<lparr>KB0 := [[(0, 0, False)], [(0, 1, False)]]\<rparr>"

definition kb0_A :: player where
  "kb0_A = blank\<lparr>KB0 := [[(0, 0, True)]]\<rparr>"

definition kb_AB_nAC :: player where
  "kb_AB_nAC = blank\<lparr>KB := [[(0, 0, True), (0, 1, True)], [(0, 0, False), (0, 2, True)]],
                       KB0 := [[(1, 1, False)]]\<rparr>"

definition lit_A :: literal where "lit_A = (0, 0, True)"
definition lit_B :: literal where "lit_B = (0, 1, True)"
definition lit_C :: literal where "lit_C = (0, 2, True)"

section \<open>Resolution\<close>

lemmas lits = lit_A_def lit_B_def lit_C_def


lemma negate_negate [simp]: "negate (negate l) = l"
  by (cases l) auto

lemma negate_neq [simp]: "negate l \<noteq> l"
  by (cases l) auto

lemma negate_inj [simp]: "negate l = negate m \<longleftrightarrow> l = m"
  by (cases l; cases m) auto

lemma iter_ok_set: "iter_ok it \<Longrightarrow> set (it xs) = set xs"
  by (simp add: iter_ok_def)

lemma iter_ok_distinct: "iter_ok it \<Longrightarrow> distinct (it xs)"
  by (simp add: iter_ok_def)

lemma iter_ok_remdups: "iter_ok remdups"
  by (simp add: iter_ok_def)

lemma order_ok_first_seen: "order_ok first_seen"
  by (simp add: order_ok_def first_seen_def iter_ok_remdups)

lemma complementary_literals_set:
  "iter_ok li \<Longrightarrow> set (complementary_literals li a b) = complementary_pairs a b"
  by (auto simp: complementary_literals_def complementary_pairs_def iter_ok_set)

lemma complementary_literals_distinct:
  "iter_ok li \<Longrightarrow> distinct (complementary_literals li a b)"
  by (simp add: complementary_literals_def iter_ok_distinct)

lemma complementary_literals_length:
  "iter_ok li \<Longrightarrow> length (complementary_literals li a b) = card (complementary_pairs a b)"
  using complementary_literals_set [of li a b] complementary_literals_distinct [of li a b]
    distinct_card [of "complementary_literals li a b"]
  by simp

lemma resolve_one:
  assumes "iter_ok li" and "complementary_pairs a b = {l}"
  shows "\<exists>r. resolve li a b = Some r \<and> set r = (set a - {l}) \<union> (set b - {negate l})"
proof -
  have len: "length (complementary_literals li a b) = 1"
    using assms by (simp add: complementary_literals_length)
  then obtain x where x: "complementary_literals li a b = [x]"
    by (cases "complementary_literals li a b") auto
  with complementary_literals_set [OF assms(1), of a b] assms(2) have "x = l" by auto
  with x have "resolve li a b =
      Some (li (removeAll l (li a) @ removeAll (negate l) (li b)))"
    by (simp add: resolve_def)
  moreover have "set (li (removeAll l (li a) @ removeAll (negate l) (li b)))
      = (set a - {l}) \<union> (set b - {negate l})"
    using assms(1) by (simp add: iter_ok_set)
  ultimately show ?thesis by blast
qed

lemma resolve_not_one:
  assumes "iter_ok li" and "card (complementary_pairs a b) \<noteq> 1"
  shows "resolve li a b = None"
proof -
  have "length (complementary_literals li a b) \<noteq> 1"
    using assms by (simp add: complementary_literals_length)
  then show ?thesis
    by (cases "complementary_literals li a b" rule: list.exhaust)
       (auto simp: resolve_def split: list.splits)
qed

lemma complementary_pairs_swap:
  "complementary_pairs b a = negate ` complementary_pairs a b"
proof -
  have "\<And>x. x \<in> set b \<Longrightarrow> negate x \<in> set a \<Longrightarrow> x \<in> negate ` {l \<in> set a. negate l \<in> set b}"
  proof -
    fix x assume "x \<in> set b" "negate x \<in> set a"
    then have "negate x \<in> {l \<in> set a. negate l \<in> set b}" by simp
    then have "negate (negate x) \<in> negate ` {l \<in> set a. negate l \<in> set b}" by (rule imageI)
    then show "x \<in> negate ` {l \<in> set a. negate l \<in> set b}" by simp
  qed
  then show ?thesis
    by (auto simp: complementary_pairs_def)
qed

lemma complementary_pairs_card_swap:
  "card (complementary_pairs b a) = card (complementary_pairs a b)"
proof -
  have "inj_on negate (complementary_pairs a b)"
    by (simp add: inj_on_def)
  then have "card (negate ` complementary_pairs a b) = card (complementary_pairs a b)"
    by (rule card_image)
  then show ?thesis
    by (subst complementary_pairs_swap) simp
qed

lemma resolve_symmetric_general:
  assumes "iter_ok li"
  shows "(resolve li a b = None \<longleftrightarrow> resolve li b a = None) \<and>
         (\<forall>r1 r2. resolve li a b = Some r1 \<and> resolve li b a = Some r2 \<longrightarrow> set r1 = set r2)"
proof (cases "card (complementary_pairs a b) = 1")
  case True
  then obtain l where l: "complementary_pairs a b = {l}"
    by (auto simp: card_1_singleton_iff)
  then have l': "complementary_pairs b a = {negate l}"
    by (subst complementary_pairs_swap) simp
  from resolve_one [OF assms l] obtain r where
    r: "resolve li a b = Some r" "set r = (set a - {l}) \<union> (set b - {negate l})" by blast
  from resolve_one [OF assms l'] obtain r' where
    r': "resolve li b a = Some r'" "set r' = (set b - {negate l}) \<union> (set a - {l})" by auto
  from r r' show ?thesis by auto
next
  case False
  then have "card (complementary_pairs b a) \<noteq> 1"
    by (simp add: complementary_pairs_card_swap)
  with False assms show ?thesis
    by (simp add: resolve_not_one)
qed

text \<open>
  C5. When the two clauses share exactly one complementary pair \<open>l\<close>, \<open>\<not>l\<close>, resolve
  returns a clause whose literals are those of the first clause without \<open>l\<close> together
  with those of the second without \<open>\<not>l\<close>; when they share no such pair or more than
  one, resolve returns None. This holds whatever order Python walks its sets in.
\<close>

theorem resolve_correct:
  assumes "iter_ok li"
  shows "(complementary_pairs a b = {l} \<longrightarrow>
            (\<exists>r. resolve li a b = Some r \<and> set r = (set a - {l}) \<union> (set b - {negate l}))) \<and>
         (card (complementary_pairs a b) \<noteq> 1 \<longrightarrow> resolve li a b = None)"
  using assms resolve_one [of li a b l] resolve_not_one [of li a b] by blast

lemma pairs_AB_nAC: "complementary_pairs [lit_A, lit_B] [negate lit_A, lit_C] = {lit_A}"
  by (auto simp: complementary_pairs_def lits)

lemma pairs_AB_nAnB:
  "complementary_pairs [lit_A, lit_B] [negate lit_A, negate lit_B] = {lit_A, lit_B}"
  by (auto simp: complementary_pairs_def lits)

theorem resolve_correct_witness:
  "iter_ok remdups \<and>
   complementary_pairs [lit_A, lit_B] [negate lit_A, lit_C] = {lit_A} \<and>
   resolve remdups [lit_A, lit_B] [negate lit_A, lit_C] = Some [lit_B, lit_C] \<and>
   (\<exists>r. resolve remdups [lit_A, lit_B] [negate lit_A, lit_C] = Some r \<and>
        set r = (set [lit_A, lit_B] - {lit_A}) \<union> (set [negate lit_A, lit_C] - {negate lit_A})) \<and>
   card (complementary_pairs [lit_A, lit_B] [negate lit_A, negate lit_B]) = 2 \<and>
   resolve remdups [lit_A, lit_B] [negate lit_A, negate lit_B] = None"
proof -
  have two: "card (complementary_pairs [lit_A, lit_B] [negate lit_A, negate lit_B]) = 2"
    by (simp add: pairs_AB_nAnB) (simp add: lits)
  have ev: "resolve remdups [lit_A, lit_B] [negate lit_A, lit_C] = Some [lit_B, lit_C]"
    by (simp add: resolve_def complementary_literals_def lits)
  show ?thesis
    using resolve_correct [OF iter_ok_remdups, of "[lit_A, lit_B]" "[negate lit_A, lit_C]" lit_A]
      resolve_correct [OF iter_ok_remdups, of "[lit_A, lit_B]" "[negate lit_A, negate lit_B]" lit_A]
      pairs_AB_nAC two ev iter_ok_remdups
    by simp
qed

text \<open>
  C10. For clauses \<open>a\<close> and \<open>b\<close> that hold no literal together with its complement,
  resolve(a, b) returns a resolvent exactly when resolve(b, a) does, and then the two
  resolvents hold the same literals.
\<close>

theorem resolve_symmetric:
  assumes "iter_ok li" and "tautology_free a" and "tautology_free b"
  shows "(resolve li a b = None \<longleftrightarrow> resolve li b a = None) \<and>
         (\<forall>r1 r2. resolve li a b = Some r1 \<and> resolve li b a = Some r2 \<longrightarrow> set r1 = set r2)"
  using resolve_symmetric_general [OF assms(1)] by blast

theorem resolve_symmetric_witness:
  "iter_ok remdups \<and> tautology_free [lit_A, lit_B] \<and> tautology_free [negate lit_A, lit_C] \<and>
   resolve remdups [lit_A, lit_B] [negate lit_A, lit_C] = Some [lit_B, lit_C] \<and>
   resolve remdups [negate lit_A, lit_C] [lit_A, lit_B] = Some [lit_C, lit_B] \<and>
   set [lit_B, lit_C] = set [lit_C, lit_B]"
proof -
  have t1: "tautology_free [lit_A, lit_B]"
    by (auto simp: tautology_free_def complementary_pairs_def lits)
  have t2: "tautology_free [negate lit_A, lit_C]"
    by (auto simp: tautology_free_def complementary_pairs_def lits)
  have e1: "resolve remdups [lit_A, lit_B] [negate lit_A, lit_C] = Some [lit_B, lit_C]"
    by (simp add: resolve_def complementary_literals_def lits)
  have e2: "resolve remdups [negate lit_A, lit_C] [lit_A, lit_B] = Some [lit_C, lit_B]"
    by (simp add: resolve_def complementary_literals_def lits)
  show ?thesis
    using resolve_symmetric [OF iter_ok_remdups t1 t2] t1 t2 e1 e2 iter_ok_remdups
    by auto
qed

section \<open>Sets as lists, and unit propagation\<close>

lemma set_add_set [simp]: "set (set_add x xs) = insert x (set xs)"
  by (auto simp: set_add_def)

lemma add_all_set [simp]: "set (add_all cs kb) = set cs \<union> set kb"
  by (induction cs arbitrary: kb) auto

lemma remove_all_ok:
  "distinct cs \<Longrightarrow> set cs \<subseteq> set kb \<Longrightarrow> remove_all cs kb = Inr (filter (\<lambda>c. c \<notin> set cs) kb)"
proof (induction cs arbitrary: kb)
  case Nil
  then show ?case by simp
next
  case (Cons c cs)
  then have "set cs \<subseteq> set (removeAll c kb)" by auto
  with Cons have "remove_all cs (removeAll c kb)
      = Inr (filter (\<lambda>x. x \<notin> set cs) (removeAll c kb))" by simp
  moreover have "filter (\<lambda>x. x \<notin> set cs) (removeAll c kb) = filter (\<lambda>x. x \<notin> set (c # cs)) kb"
    by (induction kb) auto
  ultimately show ?case using Cons.prems by (simp add: set_remove_def)
qed

lemma scan_KB_add:
  "set (fst (scan_KB l cs)) =
     {without (negate l) c | c. c \<in> set cs \<and> l \<notin> set c \<and> negate l \<in> set c}"
  by (induction cs) (auto simp: split_beta)

lemma scan_KB_remove:
  "set (snd (scan_KB l cs)) = {c \<in> set cs. l \<in> set c \<or> negate l \<in> set c}"
  by (induction cs) (auto simp: split_beta)

lemma without_set [simp]: "set (without l c) = set c - {l}"
  by (auto simp: without_def)

lemma iter_ok_Nil: "iter_ok it \<Longrightarrow> it [] = []"
  using iter_ok_set [of it "[]"] by simp

lemma unit_propagation_single:
  assumes "order_ok od"
  shows "\<exists>kb. unit_propagation od [l] st = Inr (st\<lparr>KB := kb\<rparr>) \<and>
           set kb = {c \<in> set (KB st). l \<notin> set c \<and> negate l \<notin> set c} \<union>
                    {without (negate l) c | c. c \<in> set (KB st) \<and> l \<notin> set c \<and> negate l \<in> set c}"
proof -
  define ci where "ci = clause_order od"
  have ci: "iter_ok ci" using assms by (simp add: order_ok_def ci_def)
  obtain adds rems where sc: "scan_KB l (ci (KB st)) = (adds, rems)"
    by (cases "scan_KB l (ci (KB st))") auto
  have adds: "set adds = {without (negate l) c | c. c \<in> set (KB st) \<and> l \<notin> set c \<and> negate l \<in> set c}"
    using scan_KB_add [of l "ci (KB st)"] sc by (simp add: iter_ok_set [OF ci])
  have rems: "set rems = {c \<in> set (KB st). l \<in> set c \<or> negate l \<in> set c}"
    using scan_KB_remove [of l "ci (KB st)"] sc by (simp add: iter_ok_set [OF ci])
  let ?kb1 = "add_all (ci (remdups adds)) (KB st)"
  have "remove_all (ci (remdups rems)) ?kb1 = Inr (filter (\<lambda>c. c \<notin> set (ci (remdups rems))) ?kb1)"
    by (rule remove_all_ok) (auto simp: iter_ok_distinct [OF ci] iter_ok_set [OF ci] rems)
  then have up: "unit_propagation od [l] st = Inr (st\<lparr>KB := filter (\<lambda>c. c \<notin> set rems) ?kb1\<rparr>)"
    using sc by (simp add: unit_propagation_def ci_def [symmetric] iter_ok_set [OF ci])
  have "set (filter (\<lambda>c. c \<notin> set rems) ?kb1) =
      {c \<in> set (KB st). l \<notin> set c \<and> negate l \<notin> set c} \<union>
      {without (negate l) c | c. c \<in> set (KB st) \<and> l \<notin> set c \<and> negate l \<in> set c}"
    by (auto simp: iter_ok_set [OF ci] adds rems)
  with up show ?thesis by blast
qed

lemma scan_KB0_ok:
  "\<forall>c0\<in>set kb0. c0 \<noteq> [] \<Longrightarrow>
   \<exists>adds. scan_KB0 clause kb0 = Inr adds \<and>
     set adds \<subseteq> {without (negate (hd c0)) clause | c0. c0 \<in> set kb0 \<and> negate (hd c0) \<in> set clause}"
proof (induction kb0)
  case Nil
  then show ?case by simp
next
  case (Cons c0 kb0)
  then obtain adds where a: "scan_KB0 clause kb0 = Inr adds"
    "set adds \<subseteq> {without (negate (hd c0)) clause | c0. c0 \<in> set kb0 \<and> negate (hd c0) \<in> set clause}"
    by auto
  from Cons.prems obtain l0 r0 where c0: "c0 = l0 # r0" by (cases c0) auto
  show ?case
  proof (cases "l0 \<in> set clause")
    case True
    then show ?thesis using c0 by simp
  next
    case False
    show ?thesis
    proof (cases "negate l0 \<in> set clause")
      case True
      have "without (negate l0) clause \<in>
          {without (negate (hd c0')) clause | c0'. c0' \<in> set (c0 # kb0) \<and> negate (hd c0') \<in> set clause}"
        using True c0 by force
      moreover have "set adds \<subseteq>
          {without (negate (hd c0')) clause | c0'. c0' \<in> set (c0 # kb0) \<and> negate (hd c0') \<in> set clause}"
        using a(2) by auto
      ultimately show ?thesis using a(1) c0 False True by simp
    next
      case n: False
      have "set adds \<subseteq>
          {without (negate (hd c0')) clause | c0'. c0' \<in> set (c0 # kb0) \<and> negate (hd c0') \<in> set clause}"
        using a(2) by auto
      then show ?thesis using a(1) c0 False n by simp
    qed
  qed
qed

lemma unit_propagation_multi:
  assumes "order_ok od" and "length clause \<noteq> 1" and "\<forall>c0\<in>set (KB0 st). c0 \<noteq> []"
  shows "\<exists>adds. unit_propagation od clause st = Inr (st\<lparr>KB := add_all adds (KB st)\<rparr>) \<and>
     set adds \<subseteq> {without (negate (hd c0)) clause | c0. c0 \<in> set (KB0 st) \<and> negate (hd c0) \<in> set clause}"
proof -
  define ci where "ci = clause_order od"
  have ci: "iter_ok ci" using assms by (simp add: order_ok_def ci_def)
  from assms(3) have "\<forall>c0\<in>set (ci (KB0 st)). c0 \<noteq> []" by (simp add: iter_ok_set [OF ci])
  from scan_KB0_ok [OF this, of clause] obtain adds where a: "scan_KB0 clause (ci (KB0 st)) = Inr adds"
    "set adds \<subseteq> {without (negate (hd c0)) clause | c0. c0 \<in> set (KB0 st) \<and> negate (hd c0) \<in> set clause}"
    by (auto simp: iter_ok_set [OF ci])
  have "unit_propagation od clause st = Inr (st\<lparr>KB := add_all (ci (remdups adds)) (KB st)\<rparr>)"
    using assms(2) a(1)
    by (cases clause rule: list.exhaust; cases "tl clause")
       (auto simp: unit_propagation_def ci_def [symmetric] iter_ok_Nil [OF ci] split: list.splits)
  moreover have "set (ci (remdups adds)) = set adds" by (simp add: iter_ok_set [OF ci])
  ultimately show ?thesis using a(2) by blast
qed

section \<open>Every stored clause stays true on the board\<close>

lemma holds_negate [simp]: "holds \<sigma> (negate l) \<longleftrightarrow> \<not> holds \<sigma> l"
  by (cases l) (auto simp: holds_def)

lemma satisfied_without:
  "satisfied \<sigma> c \<Longrightarrow> \<not> holds \<sigma> l \<Longrightarrow> satisfied \<sigma> (without l c)"
  by (auto simp: satisfied_def)

lemma satisfied_nonempty: "satisfied \<sigma> c \<Longrightarrow> c \<noteq> []"
  by (auto simp: satisfied_def)

lemma satisfied_single: "length c0 = 1 \<Longrightarrow> satisfied \<sigma> c0 \<Longrightarrow> holds \<sigma> (hd c0)"
  by (cases c0) (auto simp: satisfied_def)

lemma resolve_set:
  assumes "iter_ok li" and "resolve li a b = Some r"
  shows "\<exists>l. complementary_pairs a b = {l} \<and> set r = (set a - {l}) \<union> (set b - {negate l})"
proof -
  have "card (complementary_pairs a b) = 1"
  proof (rule ccontr)
    assume "card (complementary_pairs a b) \<noteq> 1"
    from resolve_not_one [OF assms(1) this] assms(2) show False by simp
  qed
  then obtain l where l: "complementary_pairs a b = {l}"
    by (auto simp: card_1_singleton_iff)
  from resolve_one [OF assms(1) l] obtain r' where
    r': "resolve li a b = Some r'" "set r' = (set a - {l}) \<union> (set b - {negate l})" by blast
  from r'(1) assms(2) have "r' = r" by simp
  with r'(2) l show ?thesis by blast
qed

lemma resolve_sound:
  assumes "iter_ok li" and "resolve li a b = Some r" and "satisfied \<sigma> a" and "satisfied \<sigma> b"
  shows "satisfied \<sigma> r"
proof -
  from resolve_set [OF assms(1,2)] obtain l where
    r: "set r = (set a - {l}) \<union> (set b - {negate l})" by blast
  show ?thesis
  proof (cases "holds \<sigma> l")
    case True
    from assms(4) obtain y where y: "y \<in> set b" "holds \<sigma> y"
      unfolding satisfied_def by blast
    have "y \<noteq> negate l"
    proof
      assume "y = negate l"
      with y(2) have "holds \<sigma> (negate l)" by simp
      with True show False by simp
    qed
    with y(1) r have "y \<in> set r" by blast
    with y(2) show ?thesis unfolding satisfied_def by blast
  next
    case False
    from assms(3) obtain x where x: "x \<in> set a" "holds \<sigma> x"
      unfolding satisfied_def by blast
    from x(2) False have "x \<noteq> l" by blast
    with x(1) r have "x \<in> set r" by blast
    with x(2) show ?thesis unfolding satisfied_def by blast
  qed
qed

lemma resolve_KB0_sound:
  assumes "iter_ok li"
  shows "satisfied \<sigma> clause \<Longrightarrow> \<forall>c0\<in>set kb0. satisfied \<sigma> c0 \<Longrightarrow>
         satisfied \<sigma> (resolve_KB0 li clause kb0)"
proof (induction kb0 arbitrary: clause)
  case Nil
  then show ?case by simp
next
  case (Cons c0 kb0)
  show ?case
  proof (cases "truthy (resolve li clause c0)")
    case True
    then obtain r where r: "resolve li clause c0 = Some r"
      by (auto simp: truthy_def split: option.splits)
    from resolve_sound [OF assms r] Cons.prems have "satisfied \<sigma> r" by simp
    with Cons r True show ?thesis by simp
  next
    case False
    with Cons.prems show ?thesis by simp
  qed
qed

lemma subsumption_scan_Keep:
  "subsumption_scan li clause cs = Keep (Some c2) \<Longrightarrow> c2 \<in> set cs"
proof (induction cs)
  case Nil
  then show ?case by simp
next
  case (Cons c cs)
  then show ?case
    by (cases "truthy (subsumption_checking li clause c)";
        cases "subsumption_checking li clause c = Some clause";
        cases "subsumption_checking li clause c = Some c")
       (simp_all add: Let_def)
qed

lemma unit_propagation_sound:
  assumes "order_ok od"
    and "\<forall>c\<in>set (KB st). satisfied \<sigma> c"
    and "\<forall>c0\<in>set (KB0 st). length c0 = 1 \<and> satisfied \<sigma> c0"
    and "satisfied \<sigma> clause"
  shows "\<exists>kb. unit_propagation od clause st = Inr (st\<lparr>KB := kb\<rparr>) \<and> (\<forall>c\<in>set kb. satisfied \<sigma> c)"
proof (cases "length clause = 1")
  case True
  then obtain l where l: "clause = [l]" by (cases clause) auto
  with assms(4) have hl: "holds \<sigma> l" by (simp add: satisfied_def)
  from unit_propagation_single [OF assms(1), of l st] obtain kb where
    kb: "unit_propagation od [l] st = Inr (st\<lparr>KB := kb\<rparr>)"
        "set kb = {c \<in> set (KB st). l \<notin> set c \<and> negate l \<notin> set c} \<union>
                  {without (negate l) c | c. c \<in> set (KB st) \<and> l \<notin> set c \<and> negate l \<in> set c}"
    by blast
  have "\<forall>c\<in>set kb. satisfied \<sigma> c"
    using kb(2) assms(2) hl by (auto intro!: satisfied_without)
  with kb(1) l show ?thesis by blast
next
  case False
  from assms(3) have ne: "\<forall>c0\<in>set (KB0 st). c0 \<noteq> []" by auto
  from unit_propagation_multi [OF assms(1) False ne] obtain adds where
    a: "unit_propagation od clause st = Inr (st\<lparr>KB := add_all adds (KB st)\<rparr>)"
       "set adds \<subseteq> {without (negate (hd c0)) clause | c0. c0 \<in> set (KB0 st) \<and> negate (hd c0) \<in> set clause}"
    by blast
  have "\<forall>c\<in>set adds. satisfied \<sigma> c"
  proof
    fix c assume "c \<in> set adds"
    with a(2) obtain c0 where c0: "c0 \<in> set (KB0 st)" "c = without (negate (hd c0)) clause" by auto
    with assms(3) have "holds \<sigma> (hd c0)" by (auto intro: satisfied_single)
    with c0(2) assms(4) show "satisfied \<sigma> c" by (auto intro!: satisfied_without)
  qed
  with assms(2) have "\<forall>c\<in>set (add_all adds (KB st)). satisfied \<sigma> c" by auto
  with a(1) show ?thesis by blast
qed

lemma insert_sound:
  assumes "order_ok od"
    and "\<forall>c\<in>set (KB st). satisfied \<sigma> c"
    and "\<forall>c0\<in>set (KB0 st). length c0 = 1 \<and> satisfied \<sigma> c0"
    and "satisfied \<sigma> clause"
  shows "\<exists>st' r. insert_clause_to_KB od clause st = Inr (st', r) \<and>
           (\<forall>c\<in>set (KB st'). satisfied \<sigma> c) \<and> KB0 st' = KB0 st"
proof (cases "clause \<in> set (KB st) \<or> clause \<in> set (KB0 st)")
  case True
  with assms show ?thesis by (simp add: insert_clause_to_KB_def)
next
  case False
  have li: "iter_ok (lit_order od)" and ci: "iter_ok (clause_order od)"
    using assms(1) by (simp_all add: order_ok_def)
  from unit_propagation_sound [OF assms] obtain kb where
    kb: "unit_propagation od clause st = Inr (st\<lparr>KB := kb\<rparr>)" "\<forall>c\<in>set kb. satisfied \<sigma> c" by blast
  define st1 where "st1 = st\<lparr>KB := kb\<rparr>"
  define clause' where "clause' = resolve_KB0 (lit_order od) clause (clause_order od (KB0 st1))"
  have c': "satisfied \<sigma> clause'"
    unfolding clause'_def using assms(3,4)
    by (intro resolve_KB0_sound [OF li]) (auto simp: st1_def iter_ok_set [OF ci])
  show ?thesis
  proof (cases "subsumption_scan (lit_order od) clause' (clause_order od (KB st1))")
    case Redundant
    then have "insert_clause_to_KB od clause st = Inr (st1, None)"
      using False kb(1) by (simp add: insert_clause_to_KB_def st1_def clause'_def Let_def)
    then show ?thesis using kb(2) by (simp add: st1_def)
  next
    case (Keep r)
    show ?thesis
    proof (cases "truthy r")
      case True
      then obtain c2 where r: "r = Some c2" by (auto simp: truthy_def split: option.splits)
      with Keep have "c2 \<in> set (KB st1)"
        using subsumption_scan_Keep [of "lit_order od" clause' "clause_order od (KB st1)" c2]
        by (simp add: iter_ok_set [OF ci])
      then have "insert_clause_to_KB od clause st =
          Inr (st1\<lparr>KB := set_add clause' (removeAll c2 (KB st1))\<rparr>, Some clause')"
        using False kb(1) Keep True r
        by (simp add: insert_clause_to_KB_def st1_def clause'_def set_remove_def Let_def)
      moreover have "\<forall>c\<in>set (set_add clause' (removeAll c2 (KB st1))). satisfied \<sigma> c"
        using kb(2) c' by (simp add: st1_def)
      ultimately show ?thesis by (simp add: st1_def)
    next
      case nt: False
      then have "insert_clause_to_KB od clause st =
          Inr (st1\<lparr>KB := set_add clause' (KB st1)\<rparr>, Some clause')"
        using False kb(1) Keep
        by (simp add: insert_clause_to_KB_def st1_def clause'_def Let_def)
      moreover have "\<forall>c\<in>set (set_add clause' (KB st1)). satisfied \<sigma> c"
        using kb(2) c' by (simp add: st1_def)
      ultimately show ?thesis by (simp add: st1_def)
    qed
  qed
qed

lemma insert_all_sound:
  assumes "order_ok od"
  shows "\<forall>c\<in>set cs. satisfied \<sigma> c \<Longrightarrow> \<forall>c\<in>set (KB st). satisfied \<sigma> c \<Longrightarrow>
         \<forall>c0\<in>set (KB0 st). length c0 = 1 \<and> satisfied \<sigma> c0 \<Longrightarrow>
         \<exists>st'. insert_all od cs st = Inr st' \<and> (\<forall>c\<in>set (KB st'). satisfied \<sigma> c) \<and> KB0 st' = KB0 st"
proof (induction cs arbitrary: st)
  case Nil
  then show ?case by simp
next
  case (Cons c cs)
  from insert_sound [OF assms Cons.prems(2,3), of c] Cons.prems(1) obtain st1 r where
    s1: "insert_clause_to_KB od c st = Inr (st1, r)" "\<forall>c\<in>set (KB st1). satisfied \<sigma> c"
        "KB0 st1 = KB0 st" by auto
  from Cons.IH [of st1] Cons.prems s1 obtain st' where
    "insert_all od cs st1 = Inr st'" "\<forall>c\<in>set (KB st'). satisfied \<sigma> c" "KB0 st' = KB0 st1"
    by auto
  with s1 show ?case by simp
qed

section \<open>Inserting a single-literal clause\<close>

lemma iter_ok_single: 
  assumes "iter_ok it"
  shows "it [x] = [x]"
proof -
  have s: "set (it [x]) = {x}" and d: "distinct (it [x])"
    using assms by (simp_all add: iter_ok_set iter_ok_distinct)
  show ?thesis
  proof (cases "it [x]")
    case Nil
    with s show ?thesis by simp
  next
    case (Cons y ys)
    with s have y: "y = x" by auto
    from Cons s d y have "set ys \<subseteq> {x}" "x \<notin> set ys" by auto
    then have "ys = []" by (cases ys) auto
    with Cons y show ?thesis by simp
  qed
qed

lemma resolve_single_not_truthy:
  assumes "iter_ok li"
  shows "\<not> truthy (resolve li [l] [m])"
proof (cases "negate l = m")
  case True
  then have "complementary_literals li [l] [m] = [l]"
    by (simp add: complementary_literals_def iter_ok_single [OF assms])
  then have "resolve li [l] [m] = Some (li [])"
    using True by (simp add: resolve_def iter_ok_single [OF assms])
  then show ?thesis by (simp add: truthy_def iter_ok_Nil [OF assms])
next
  case False
  then have "complementary_literals li [l] [m] = []"
    by (simp add: complementary_literals_def iter_ok_single [OF assms])
  then show ?thesis by (simp add: resolve_def truthy_def)
qed

lemma resolve_KB0_single:
  assumes "iter_ok li" and "\<forall>c0\<in>set kb0. length c0 = 1"
  shows "resolve_KB0 li [l] kb0 = [l]"
proof (cases kb0)
  case Nil
  then show ?thesis by simp
next
  case (Cons c0 rest)
  with assms(2) obtain m where "c0 = [m]" by (cases c0) auto
  with Cons resolve_single_not_truthy [OF assms(1), of l m] show ?thesis by simp
qed

lemma subsumption_scan_absent:
  assumes "iter_ok li" and "\<forall>c\<in>set cs. l \<notin> set c"
  shows "subsumption_scan li [l] cs = Keep None"
  using assms(2)
proof (induction cs)
  case Nil
  then show ?case by simp
next
  case (Cons c cs)
  then have l: "l \<notin> set c" by simp
  have "\<not> truthy (subsumption_checking li [l] c)"
  proof (cases "set c \<subseteq> {l}")
    case True
    with l have "c = []" by (cases c) auto
    then show ?thesis by (simp add: subsumption_checking_def truthy_def iter_ok_Nil [OF assms(1)])
  next
    case False
    with l show ?thesis by (simp add: subsumption_checking_def truthy_def)
  qed
  with Cons show ?case by simp
qed

lemma insert_single:
  assumes "order_ok od" and "\<forall>c0\<in>set (KB0 st). length c0 = 1"
    and "[l] \<notin> set (KB st)" and "[l] \<notin> set (KB0 st)"
  shows "\<exists>kb. insert_clause_to_KB od [l] st = Inr (st\<lparr>KB := kb\<rparr>, Some [l]) \<and>
           set kb = insert [l] ({c \<in> set (KB st). l \<notin> set c \<and> negate l \<notin> set c} \<union>
                    {without (negate l) c | c. c \<in> set (KB st) \<and> l \<notin> set c \<and> negate l \<in> set c})"
proof -
  have li: "iter_ok (lit_order od)" and ci: "iter_ok (clause_order od)"
    using assms(1) by (simp_all add: order_ok_def)
  from unit_propagation_single [OF assms(1), of l st] obtain kb where
    kb: "unit_propagation od [l] st = Inr (st\<lparr>KB := kb\<rparr>)"
        "set kb = {c \<in> set (KB st). l \<notin> set c \<and> negate l \<notin> set c} \<union>
                  {without (negate l) c | c. c \<in> set (KB st) \<and> l \<notin> set c \<and> negate l \<in> set c}"
    by blast
  have res: "resolve_KB0 (lit_order od) [l] (clause_order od (KB0 st)) = [l]"
    using assms(2) by (intro resolve_KB0_single [OF li]) (simp add: iter_ok_set [OF ci])
  have "\<forall>c\<in>set (clause_order od kb). l \<notin> set c"
    using kb(2) by (auto simp: iter_ok_set [OF ci])
  from subsumption_scan_absent [OF li this]
  have scan: "subsumption_scan (lit_order od) [l] (clause_order od kb) = Keep None" .
  have "insert_clause_to_KB od [l] st = Inr (st\<lparr>KB := set_add [l] kb\<rparr>, Some [l])"
    using assms(3,4) kb(1) res scan
    by (simp add: insert_clause_to_KB_def Let_def truthy_def)
  moreover have "set (set_add [l] kb) = insert [l] (set kb)" by simp
  ultimately show ?thesis using kb(2) by blast
qed

text \<open>
  C4, amended. Let \<open>KB0\<close> hold single-literal clauses and let \<open>(L)\<close> be stored in
  neither \<open>KB\<close> nor \<open>KB0\<close>. Then inserting \<open>(L)\<close> stores it, deletes from \<open>KB\<close>
  every clause that contains \<open>L\<close>, and replaces every clause that contains \<open>\<not>L\<close> (and
  not \<open>L\<close>) by that clause without \<open>\<not>L\<close>; so \<open>(L \<or> X)\<close> goes and \<open>(\<not>L \<or> X)\<close> becomes
  \<open>(X)\<close>.
\<close>

theorem unit_insert_propagates:
  assumes "order_ok od" and "\<forall>c0\<in>set (KB0 st). length c0 = 1"
    and "[l] \<notin> set (KB st)" and "[l] \<notin> set (KB0 st)"
  shows "\<exists>st'. insert_clause_to_KB od [l] st = Inr (st', Some [l]) \<and>
           [l] \<in> set (KB st') \<and>
           (\<forall>c\<in>set (KB st). l \<in> set c \<longrightarrow> c \<notin> set (KB st')) \<and>
           (\<forall>c\<in>set (KB st). negate l \<in> set c \<and> l \<notin> set c \<longrightarrow>
               c \<notin> set (KB st') \<and> without (negate l) c \<in> set (KB st'))"
proof -
  from insert_single [OF assms] obtain kb where
    kb: "insert_clause_to_KB od [l] st = Inr (st\<lparr>KB := kb\<rparr>, Some [l])"
        "set kb = insert [l] ({c \<in> set (KB st). l \<notin> set c \<and> negate l \<notin> set c} \<union>
                  {without (negate l) c | c. c \<in> set (KB st) \<and> l \<notin> set c \<and> negate l \<in> set c})"
    by blast
  have a: "[l] \<in> set kb" using kb(2) by simp
  have b: "\<forall>c\<in>set (KB st). l \<in> set c \<longrightarrow> c \<notin> set kb"
  proof (intro ballI impI)
    fix c assume c: "c \<in> set (KB st)" "l \<in> set c"
    with assms(3) have "c \<noteq> [l]" by auto
    moreover have "c \<noteq> without (negate l) c'" if "l \<notin> set c'" for c'
      using that c(2) by auto
    ultimately show "c \<notin> set kb" using kb(2) c(2) by auto
  qed
  have c: "\<forall>c\<in>set (KB st). negate l \<in> set c \<and> l \<notin> set c \<longrightarrow>
               c \<notin> set kb \<and> without (negate l) c \<in> set kb"
  proof (intro ballI impI)
    fix c assume c: "c \<in> set (KB st)" "negate l \<in> set c \<and> l \<notin> set c"
    then have "c \<noteq> [l]" by auto
    moreover have "c \<noteq> without (negate l) c'" for c'
      using c(2) by auto
    ultimately have "c \<notin> set kb" using kb(2) c(2) by auto
    moreover have "without (negate l) c \<in> set kb" using kb(2) c by blast
    ultimately show "c \<notin> set kb \<and> without (negate l) c \<in> set kb" by simp
  qed
  from kb(1) a b c show ?thesis by simp
qed

section \<open>The shape of an insertion\<close>

lemma unit_propagation_frame:
  "unit_propagation od clause st = Inr st1 \<Longrightarrow>
     KB0 st1 = KB0 st \<and> game st1 = game st \<and> KB_length_history st1 = KB_length_history st"
  by (auto simp: unit_propagation_def split: sum.splits prod.splits)

lemma insert_shape:
  assumes "order_ok od" and "clause \<notin> set (KB st)" and "clause \<notin> set (KB0 st)"
    and "unit_propagation od clause st = Inr st1"
  shows "(subsumption_scan (lit_order od) (final_clause od clause st) (clause_order od (KB st1)) = Redundant
            \<and> insert_clause_to_KB od clause st = Inr (st1, None)) \<or>
         (\<exists>kb. insert_clause_to_KB od clause st = Inr (st1\<lparr>KB := kb\<rparr>, Some (final_clause od clause st))
            \<and> final_clause od clause st \<in> set kb)"
proof -
  have ci: "iter_ok (clause_order od)" using assms(1) by (simp add: order_ok_def)
  define clause' where "clause' = final_clause od clause st"
  have fc: "resolve_KB0 (lit_order od) clause (clause_order od (KB0 st1)) = clause'"
    using unit_propagation_frame [OF assms(4)] by (simp add: clause'_def final_clause_def)
  show ?thesis
  proof (cases "subsumption_scan (lit_order od) clause' (clause_order od (KB st1))")
    case Redundant
    then have "insert_clause_to_KB od clause st = Inr (st1, None)"
      using assms(2,3,4) fc by (simp add: insert_clause_to_KB_def Let_def)
    with Redundant show ?thesis by (simp add: clause'_def)
  next
    case (Keep r)
    show ?thesis
    proof (cases "truthy r")
      case True
      then obtain c2 where r: "r = Some c2" by (auto simp: truthy_def split: option.splits)
      with Keep have "c2 \<in> set (KB st1)"
        using subsumption_scan_Keep [of "lit_order od" clause' "clause_order od (KB st1)" c2]
        by (simp add: iter_ok_set [OF ci])
      then have "insert_clause_to_KB od clause st =
          Inr (st1\<lparr>KB := set_add clause' (removeAll c2 (KB st1))\<rparr>, Some clause')"
        using assms(2,3,4) fc Keep True r
        by (simp add: insert_clause_to_KB_def set_remove_def Let_def)
      moreover have "clause' \<in> set (set_add clause' (removeAll c2 (KB st1)))" by simp
      ultimately show ?thesis unfolding clause'_def by blast
    next
      case False
      then have "insert_clause_to_KB od clause st =
          Inr (st1\<lparr>KB := set_add clause' (KB st1)\<rparr>, Some clause')"
        using assms(2,3,4) fc Keep
        by (simp add: insert_clause_to_KB_def Let_def)
      moreover have "clause' \<in> set (set_add clause' (KB st1))" by simp
      ultimately show ?thesis unfolding clause'_def by blast
    qed
  qed
qed

lemma unit_propagation_idle:
  assumes "order_ok od" and "length clause \<noteq> 1"
    and "\<forall>c0\<in>set (KB0 st). c0 \<noteq> [] \<and> negate (hd c0) \<notin> set clause"
  shows "unit_propagation od clause st = Inr st"
proof -
  from assms(3) have ne: "\<forall>c0\<in>set (KB0 st). c0 \<noteq> []" by simp
  from unit_propagation_multi [OF assms(1,2) ne] obtain adds where
    a: "unit_propagation od clause st = Inr (st\<lparr>KB := add_all adds (KB st)\<rparr>)"
       "set adds \<subseteq> {without (negate (hd c0)) clause | c0. c0 \<in> set (KB0 st) \<and> negate (hd c0) \<in> set clause}"
    by blast
  have "{without (negate (hd c0)) clause | c0. c0 \<in> set (KB0 st) \<and> negate (hd c0) \<in> set clause} = {}"
    using assms(3) by blast
  with a(2) have "set adds \<subseteq> {}" by simp
  then have "adds = []" by simp
  with a(1) show ?thesis by simp
qed

lemmas run_defs = insert_clause_to_KB_def unit_propagation_def first_seen_def blank_def
  init_player_def set_add_def set_remove_def subsumption_checking_def truthy_def resolve_def
  complementary_literals_def without_def Let_def lits

lemmas state_defs = kb_B_after_not_A_def kb_AB_after_not_A_def kb0_A_def kb_AB_nAC_def
  kb0_not_A_not_B_def

lemmas game_defs = game_move_def get_single_clause_count_def is_stuck_def make_safe_guess_def
  guess_loop.simps game_mark_safe_def game_mark_mine_def cell_at_def put_cell_def py_index_def
  py_position_def game_get_unmarked_neighbors_and_mine_count_def neighborhood_def
  generate_clauses_def lit_of_def corridor_def hidden_def shown_def stalled_def
  pairwise_matching_KB0_def matching_clauses_def

section \<open>The claims about insertion\<close>

text \<open>
  C1 (the code breaks it). Starting from the empty \<open>KB\<close> and \<open>KB0\<close>, the calls
  insert(\<open>\<not>A \<or> B\<close>), insert(\<open>B \<or> C\<close>), insert(\<open>A\<close>) leave \<open>KB\<close> holding both \<open>(B)\<close>
  and its strict superset \<open>(B \<or> C)\<close>: unit propagation stores the shortened clause
  \<open>(B)\<close> with no subsumption check. No loop of this run depends on the order in which
  a set is walked.
\<close>

theorem minimality_broken_by_unit_propagation:
  "insert_all first_seen [[negate lit_A, lit_B], [lit_B, lit_C], [lit_A]] blank
     = Inr (blank\<lparr>KB := [[lit_B, lit_C], [lit_B], [lit_A]]\<rparr>) \<and>
   set [lit_B] \<subset> set [lit_B, lit_C]"
  by (auto simp add: run_defs)

text \<open>
  C2 (the code breaks it). On a corridor of one row, four turns from the safe cell (0,0)
  reveal (0,0) to (0,3) and leave the single-literal clause "(0,4) is safe" in \<open>KB\<close>,
  with \<open>KB\<close> of size 1 at the start of every turn. On the fifth turn \<open>is_stuck\<close> is
  true, \<open>get_single_clause_count\<close> returns \<open>None\<close>, so the guesser runs although a
  single-literal clause is in \<open>KB\<close>; it finds no clause of two or more literals and the
  turn reports no move, leaving the known safe cell untouched.
\<close>

theorem guesser_runs_with_single_literal_clause:
  "game_moves first_seen 4 (init_player corridor [(0, 0)])
     = Inr (stalled, [Some (0, 0), Some (0, 1), Some (0, 2), Some (0, 3)]) \<and>
   [(0, 4, False)] \<in> set (KB stalled) \<and>
   get_single_clause_count stalled = None \<and>
   fst (is_stuck stalled) \<and>
   make_safe_guess first_seen (snd (is_stuck stalled)) = None \<and>
   game_move first_seen stalled = Inr (stalled\<lparr>KB_length_history := [1, 1, 1, 1, 1]\<rparr>, None)"
proof -
  have a: "game_moves first_seen 4 (init_player corridor [(0, 0)])
     = Inr (stalled, [Some (0, 0), Some (0, 1), Some (0, 2), Some (0, 3)])"
    by (simp add: numeral_eq_Suc upto.simps game_defs run_defs)
  have b: "[(0, 4, False)] \<in> set (KB stalled)" by (simp add: stalled_def)
  have c: "get_single_clause_count stalled = None" by (simp add: get_single_clause_count_def)
  have d: "fst (is_stuck stalled)" by (simp add: is_stuck_def stalled_def)
  have e: "make_safe_guess first_seen (snd (is_stuck stalled)) = None"
    by (simp add: game_defs run_defs)
  have f: "game_move first_seen stalled = Inr (stalled\<lparr>KB_length_history := [1, 1, 1, 1, 1]\<rparr>, None)"
    by (simp add: game_defs run_defs)
  from a b c d e f show ?thesis by simp
qed

text \<open>
  C6 (the code breaks it). With the committed fact \<open>(A)\<close> in \<open>KB0\<close> and an empty
  \<open>KB\<close>, inserting \<open>(A \<or> B)\<close> stores it: the match with the committed fact only
  ends the scan of \<open>KB0\<close> inside unit_propagation, and the insertion goes on.
\<close>

theorem committed_fact_clause_is_inserted:
  "[lit_A] \<in> set (KB0 kb0_A) \<and> lit_A \<in> set [lit_A, lit_B] \<and> KB kb0_A = [] \<and>
   insert_clause_to_KB first_seen [lit_A, lit_B] kb0_A
     = Inr (kb0_A\<lparr>KB := [[lit_A, lit_B]]\<rparr>, Some [lit_A, lit_B])"
  by (simp add: run_defs state_defs)

text \<open>
  C4, as the claim states it, fails when \<open>(L)\<close> is already stored: the insertion is
  then a no-op and a stored \<open>(L \<or> X)\<close> stays. Three insertions from the empty state
  reach such a \<open>KB\<close>.
\<close>

theorem unit_insert_no_op_counterexample:
  "insert_all first_seen [[lit_A, lit_B], [negate lit_C, lit_A], [lit_C]] blank
     = Inr (blank\<lparr>KB := [[lit_A, lit_B], [lit_A], [lit_C]]\<rparr>) \<and>
   insert_clause_to_KB first_seen [lit_A] (blank\<lparr>KB := [[lit_A, lit_B], [lit_A], [lit_C]]\<rparr>)
     = Inr (blank\<lparr>KB := [[lit_A, lit_B], [lit_A], [lit_C]]\<rparr>, None) \<and>
   [lit_A, lit_B] \<in> set (KB (blank\<lparr>KB := [[lit_A, lit_B], [lit_A], [lit_C]]\<rparr>))"
  by (simp add: run_defs)

theorem unit_insert_propagates_witness:
  "order_ok first_seen \<and> KB0 kb_AB_nAC = [[(1, 1, False)]] \<and>
   [lit_A] \<notin> set (KB kb_AB_nAC) \<and> [lit_A] \<notin> set (KB0 kb_AB_nAC) \<and>
   [lit_A, lit_B] \<in> set (KB kb_AB_nAC) \<and> [negate lit_A, lit_C] \<in> set (KB kb_AB_nAC) \<and>
   without (negate lit_A) [negate lit_A, lit_C] = [lit_C] \<and>
   insert_clause_to_KB first_seen [lit_A] kb_AB_nAC
     = Inr (kb_AB_nAC\<lparr>KB := [[lit_C], [lit_A]]\<rparr>, Some [lit_A])"
  using unit_insert_propagates [OF order_ok_first_seen, of kb_AB_nAC lit_A] order_ok_first_seen
  by (simp add: run_defs state_defs)

text \<open>
  C9, as the claim states it, fails for contradictory insertions: inserting \<open>(\<not>A)\<close>
  and then \<open>(A)\<close> leaves the empty clause in \<open>KB\<close>, because unit propagation shortens
  the single-literal clause \<open>(\<not>A)\<close>.
\<close>

theorem empty_clause_counterexample:
  "insert_all first_seen [[negate lit_A], [lit_A]] blank = Inr (blank\<lparr>KB := [[], [lit_A]]\<rparr>) \<and>
   [] \<in> set (KB (blank\<lparr>KB := [[], [lit_A]]\<rparr>))"
  by (simp add: run_defs)

text \<open>
  C9, amended. Let every clause of \<open>KB\<close> and \<open>KB0\<close> be true on one assignment of
  mines to cells, \<open>KB0\<close> holding single-literal clauses (both sets empty, for example).
  Then any run of insert_clause_to_KB with clauses that are true on that assignment
  raises nothing and leaves only clauses with at least one literal in \<open>KB\<close>.
\<close>

theorem no_empty_clause_on_consistent_inserts:
  assumes "order_ok od"
    and "\<forall>c\<in>set cs. satisfied \<sigma> c"
    and "\<forall>c\<in>set (KB st). satisfied \<sigma> c"
    and "\<forall>c0\<in>set (KB0 st). length c0 = 1 \<and> satisfied \<sigma> c0"
  shows "\<exists>st'. insert_all od cs st = Inr st' \<and> (\<forall>c\<in>set (KB st'). c \<noteq> [])"
proof -
  from insert_all_sound [OF assms] obtain st' where
    "insert_all od cs st = Inr st'" "\<forall>c\<in>set (KB st'). satisfied \<sigma> c" by blast
  then show ?thesis using satisfied_nonempty by blast
qed

theorem no_empty_clause_on_consistent_inserts_witness:
  "order_ok first_seen \<and>
   satisfied one_mine [lit_A, lit_B] \<and> satisfied one_mine [negate lit_B, lit_C] \<and>
   satisfied one_mine [negate lit_B] \<and> KB blank = [] \<and> KB0 blank = [] \<and>
   insert_all first_seen [[lit_A, lit_B], [negate lit_B, lit_C], [negate lit_B]] blank
     = Inr (blank\<lparr>KB := [[lit_A], [negate lit_B]]\<rparr>) \<and>
   [] \<notin> set (KB (blank\<lparr>KB := [[lit_A], [negate lit_B]]\<rparr>))"
  using no_empty_clause_on_consistent_inserts [OF order_ok_first_seen,
      of "[[lit_A, lit_B], [negate lit_B, lit_C], [negate lit_B]]" one_mine blank]
    order_ok_first_seen
  by (simp add: run_defs satisfied_def holds_def one_mine_def)

text \<open>
  C7 (the code breaks it). With \<open>(\<not>A)\<close> committed and \<open>(B)\<close> stored, all true on a
  board where A is safe and B is a mine, inserting \<open>(A \<or> B \<or> C)\<close> is rejected: the
  stored \<open>(B)\<close> is a subset of the final clause \<open>(B \<or> C)\<close> and the call returns
  \<open>None\<close>. Yet \<open>KB\<close> is not unchanged: unit propagation has already stored the
  shortened clause \<open>(B \<or> C)\<close> beside the stricter \<open>(B)\<close>, and the rejection does not
  take it back.
\<close>

theorem rejected_insert_changes_KB:
  "[lit_B] \<in> set (KB kb_B_after_not_A) \<and>
   final_clause first_seen [lit_A, lit_B, lit_C] kb_B_after_not_A = [lit_B, lit_C] \<and>
   set [lit_B] \<subseteq> set [lit_B, lit_C] \<and>
   insert_clause_to_KB first_seen [lit_A, lit_B, lit_C] kb_B_after_not_A
     = Inr (kb_B_after_not_A\<lparr>KB := [[lit_B], [lit_B, lit_C]]\<rparr>, None) \<and>
   set (KB (kb_B_after_not_A\<lparr>KB := [[lit_B], [lit_B, lit_C]]\<rparr>)) \<noteq> set (KB kb_B_after_not_A)"
  by (simp add: run_defs state_defs final_clause_def)

section \<open>Combinations and the clauses of a hint\<close>

lemma combinations_length: "length (combinations xs k) = length xs choose k"
  by (induction xs k rule: combinations.induct) simp_all

lemma combinations_lengths: "ys \<in> set (combinations xs k) \<Longrightarrow> length ys = k"
  by (induction xs k arbitrary: ys rule: combinations.induct) auto

lemma combinations_elems:
  "ys \<in> set (combinations xs k) \<Longrightarrow> y \<in> set ys \<Longrightarrow> y \<in> set xs"
proof (induction xs k arbitrary: ys rule: combinations.induct)
  case (1 xs)
  then show ?case by simp
next
  case (2 r)
  then show ?case by simp
next
  case (3 x xs r)
  from "3.prems"(1) consider ys' where "ys = x # ys'" "ys' \<in> set (combinations xs r)"
    | "ys \<in> set (combinations xs (Suc r))" by auto
  then show ?case
  proof cases
    case 1
    show ?thesis
    proof (cases "y = x")
      case True
      then show ?thesis by simp
    next
      case False
      with 1(1) "3.prems"(2) have "y \<in> set ys'" by simp
      from "3.IH"(1) [OF 1(2) this] show ?thesis by simp
    qed
  next
    case 2
    from "3.IH"(2) [OF 2 "3.prems"(2)] show ?thesis by simp
  qed
qed

lemma combinations_member:
  "ys \<in> set (combinations xs k) \<Longrightarrow> set ys \<subseteq> set xs \<and> length ys = k"
  using combinations_lengths [of ys xs k] combinations_elems [of ys xs k] by blast

lemma combinations_subseq:
  "ys \<in> set (combinations xs k) \<longleftrightarrow> subseq ys xs \<and> length ys = k"
proof (induction xs k arbitrary: ys rule: combinations.induct)
  case (1 xs)
  then show ?case by auto
next
  case (2 r)
  then show ?case by auto
next
  case (3 x xs r)
  show ?case
  proof (cases ys)
    case Nil
    then show ?thesis using 3 by auto
  next
    case (Cons y ys')
    show ?thesis
    proof (cases "y = x")
      case True
      have "subseq (x # ys') xs \<Longrightarrow> subseq ys' xs" by (rule subseq_Cons')
      then show ?thesis using 3 Cons True by auto
    next
      case False
      then show ?thesis using 3 Cons by auto
    qed
  qed
qed

lemma combinations_filter:
  "distinct xs \<Longrightarrow> ys \<in> set (combinations xs k) \<Longrightarrow> filter (\<lambda>x. x \<in> set ys) xs = ys"
proof (induction xs k arbitrary: ys rule: combinations.induct)
  case (1 xs)
  then show ?case by simp
next
  case (2 r)
  then show ?case by simp
next
  case (3 x xs r)
  from "3.prems" have d: "distinct xs" and nx: "x \<notin> set xs" by auto
  from "3.prems"(2) consider ys' where "ys = x # ys'" "ys' \<in> set (combinations xs r)"
    | "ys \<in> set (combinations xs (Suc r))" by auto
  then show ?case
  proof cases
    case 1
    have "filter (\<lambda>z. z \<in> set ys) xs = filter (\<lambda>z. z \<in> set ys') xs"
      using nx 1(1) by (intro filter_cong) auto
    also have "\<dots> = ys'" using "3.IH"(1) [OF d 1(2)] .
    finally show ?thesis using 1(1) by simp
  next
    case 2
    with combinations_member [of ys xs "Suc r"] nx have "x \<notin> set ys" by auto
    then show ?thesis using "3.IH"(2) [OF d 2] by simp
  qed
qed

lemma combinations_each_distinct:
  assumes "distinct xs" and "ys \<in> set (combinations xs k)"
  shows "distinct ys"
proof -
  have "distinct (filter (\<lambda>x. x \<in> set ys) xs)" using assms(1) by (rule distinct_filter)
  then show ?thesis by (simp only: combinations_filter [OF assms])
qed

lemma combinations_subset_eq:
  assumes "distinct xs" and "ys \<in> set (combinations xs k)" and "zs \<in> set (combinations xs k)"
    and "set ys \<subseteq> set zs"
  shows "ys = zs"
proof -
  have "card (set ys) = length ys"
    using combinations_each_distinct [OF assms(1,2)] by (rule distinct_card)
  then have cy: "card (set ys) = k" using combinations_lengths [OF assms(2)] by simp
  have "card (set zs) = length zs"
    using combinations_each_distinct [OF assms(1,3)] by (rule distinct_card)
  then have cz: "card (set zs) = k" using combinations_lengths [OF assms(3)] by simp
  have "set ys = set zs"
  proof (rule card_subset_eq)
    show "finite (set zs)" by simp
    show "set ys \<subseteq> set zs" by (rule assms(4))
    show "card (set ys) = card (set zs)" using cy cz by simp
  qed
  then have "filter (\<lambda>x. x \<in> set ys) xs = filter (\<lambda>x. x \<in> set zs) xs" by simp
  then show ?thesis
    by (simp only: combinations_filter [OF assms(1,2)] combinations_filter [OF assms(1,3)])
qed

lemma combinations_distinct: "distinct xs \<Longrightarrow> distinct (combinations xs k)"
proof (induction xs k rule: combinations.induct)
  case (1 xs)
  then show ?case by simp
next
  case (2 r)
  then show ?case by simp
next
  case (3 x xs r)
  then have d: "distinct xs" and nx: "x \<notin> set xs" by auto
  have "distinct (map ((#) x) (combinations xs r))"
    using "3.IH"(1) [OF d] by (simp add: distinct_map)
  moreover have "x # ys \<notin> set (combinations xs (Suc r))" for ys
    using combinations_member [of "x # ys" xs "Suc r"] nx by auto
  ultimately show ?case using "3.IH"(2) [OF d] by auto
qed

lemma subsumption_scan_unrelated:
  "\<forall>d\<in>set cs. \<not> set c \<subseteq> set d \<and> \<not> set d \<subseteq> set c \<Longrightarrow>
   subsumption_scan li c cs = Keep None"
  by (induction cs) (simp_all add: subsumption_checking_def truthy_def)

lemma insert_fresh:
  assumes "order_ok od" and "KB0 st = []" and "length c \<noteq> 1"
    and "\<forall>d\<in>set (KB st). \<not> set c \<subseteq> set d \<and> \<not> set d \<subseteq> set c"
  shows "insert_clause_to_KB od c st = Inr (st\<lparr>KB := KB st @ [c]\<rparr>, Some c)"
proof -
  have li: "iter_ok (lit_order od)" and ci: "iter_ok (clause_order od)"
    using assms(1) by (simp_all add: order_ok_def)
  have nk: "c \<notin> set (KB st)" using assms(4) by auto
  have idle: "unit_propagation od c st = Inr st"
    using assms(2) by (intro unit_propagation_idle [OF assms(1,3)]) simp
  have fc: "resolve_KB0 (lit_order od) c (clause_order od (KB0 st)) = c"
    using assms(2) by (simp add: iter_ok_Nil [OF ci])
  have "subsumption_scan (lit_order od) c (clause_order od (KB st)) = Keep None"
    using assms(4) by (intro subsumption_scan_unrelated) (simp add: iter_ok_set [OF ci])
  with nk assms(2) idle fc show ?thesis
    by (simp add: insert_clause_to_KB_def Let_def truthy_def set_add_def)
qed

lemma insert_all_fresh:
  assumes "order_ok od"
  shows "KB0 st = [] \<Longrightarrow> \<forall>c\<in>set cs. length c \<noteq> 1 \<Longrightarrow> distinct cs \<Longrightarrow>
         \<forall>c\<in>set cs. \<forall>d\<in>set (KB st). \<not> set c \<subseteq> set d \<and> \<not> set d \<subseteq> set c \<Longrightarrow>
         \<forall>c\<in>set cs. \<forall>d\<in>set cs. c \<noteq> d \<longrightarrow> \<not> set c \<subseteq> set d \<Longrightarrow>
         insert_all od cs st = Inr (st\<lparr>KB := KB st @ cs\<rparr>)"
proof (induction cs arbitrary: st)
  case Nil
  then show ?case by simp
next
  case (Cons c cs)
  have step: "insert_clause_to_KB od c st = Inr (st\<lparr>KB := KB st @ [c]\<rparr>, Some c)"
    using Cons.prems by (intro insert_fresh [OF assms]) simp_all
  let ?st1 = "st\<lparr>KB := KB st @ [c]\<rparr>"
  have "insert_all od cs ?st1 = Inr (?st1\<lparr>KB := KB ?st1 @ cs\<rparr>)"
  proof (rule Cons.IH)
    show "KB0 ?st1 = []" using Cons.prems(1) by simp
    show "\<forall>c\<in>set cs. length c \<noteq> 1" using Cons.prems(2) by simp
    show "distinct cs" using Cons.prems(3) by simp
    show "\<forall>c'\<in>set cs. \<forall>d\<in>set (KB ?st1). \<not> set c' \<subseteq> set d \<and> \<not> set d \<subseteq> set c'"
    proof (intro ballI)
      fix c' d assume c': "c' \<in> set cs" and d: "d \<in> set (KB ?st1)"
      from Cons.prems(3) c' have ne: "c' \<noteq> c" by auto
      show "\<not> set c' \<subseteq> set d \<and> \<not> set d \<subseteq> set c'"
      proof (cases "d = c")
        case True
        with Cons.prems(5) c' ne show ?thesis by simp
      next
        case False
        with d have "d \<in> set (KB st)" by simp
        with Cons.prems(4) c' show ?thesis by simp
      qed
    qed
    show "\<forall>c\<in>set cs. \<forall>d\<in>set cs. c \<noteq> d \<longrightarrow> \<not> set c \<subseteq> set d"
      using Cons.prems(5) by simp
  qed
  with step show ?case by simp
qed

lemma insert_all_append:
  "insert_all od (xs @ ys) st =
     (case insert_all od xs st of Inl e \<Rightarrow> Inl e | Inr st1 \<Rightarrow> insert_all od ys st1)"
  by (induction xs arbitrary: st) (auto split: sum.splits)

lemma lit_of_inj: "lit_of b x = lit_of b y \<longleftrightarrow> x = y"
  by (auto simp: lit_of_def prod_eq_iff)

lemma lit_of_polarity: "lit_of True x \<noteq> lit_of False y"
  by (simp add: lit_of_def)

lemma map_lit_of_subset:
  "set (map (lit_of b) ys) \<subseteq> set (map (lit_of b) zs) \<Longrightarrow> set ys \<subseteq> set zs"
proof
  fix y assume a: "set (map (lit_of b) ys) \<subseteq> set (map (lit_of b) zs)" and y: "y \<in> set ys"
  then have "lit_of b y \<in> set (map (lit_of b) zs)" by auto
  then obtain z where "z \<in> set zs" "lit_of b y = lit_of b z" by auto
  then show "y \<in> set zs" by (simp add: lit_of_inj)
qed

lemma map_lit_of_cross:
  "ys \<noteq> [] \<Longrightarrow> \<not> set (map (lit_of b) ys) \<subseteq> set (map (lit_of (\<not> b)) zs)"
proof
  assume ne: "ys \<noteq> []" and a: "set (map (lit_of b) ys) \<subseteq> set (map (lit_of (\<not> b)) zs)"
  from ne obtain y where "y \<in> set ys" by (cases ys) auto
  with a have "lit_of b y \<in> set (map (lit_of (\<not> b)) zs)" by auto
  then obtain z where "lit_of b y = lit_of (\<not> b) z" by auto
  then show False by (simp add: lit_of_def)
qed

lemma hint_clauses_unrelated:
  assumes "distinct cells"
    and "ys \<in> set (combinations cells k)" and "zs \<in> set (combinations cells k)"
    and "map (lit_of b) ys \<noteq> map (lit_of b) zs"
  shows "\<not> set (map (lit_of b) ys) \<subseteq> set (map (lit_of b) zs)"
proof
  assume "set (map (lit_of b) ys) \<subseteq> set (map (lit_of b) zs)"
  then have "set ys \<subseteq> set zs" by (rule map_lit_of_subset)
  from combinations_subset_eq [OF assms(1,2,3) this] assms(4) show False by simp
qed

lemma hint_clauses_distinct:
  assumes "distinct cells"
  shows "distinct (map (map (lit_of b)) (combinations cells k))"
proof -
  have "inj (map (lit_of b))"
    by (intro inj_mapI injI) (simp add: lit_of_inj)
  then have "inj_on (map (lit_of b)) (set (combinations cells k))"
    by (rule inj_on_subset) simp
  with combinations_distinct [OF assms, of k] show ?thesis by (simp add: distinct_map)
qed

text \<open>
  C3. For a hint of \<open>n\<close> mines among \<open>m\<close> distinct cells with \<open>0 < n < m\<close>,
  generate_clauses hands to insert_clause_to_KB, one by one, exactly the clauses of
  \<open>m - n + 1\<close> positive literals and the clauses of \<open>n + 1\<close> negative literals over
  sub-sequences of the cells, \<open>C(m, m-n+1)\<close> and \<open>C(m, n+1)\<close> of them, none twice.
  Starting from empty \<open>KB\<close> and \<open>KB0\<close>, \<open>KB\<close> afterwards holds exactly these
  clauses; for \<open>m = 8\<close>, \<open>n = 2\<close> these are 8 positive 7-literal clauses and 56 negative
  3-literal clauses.
\<close>

theorem generate_clauses_hint:
  assumes "order_ok od" and "distinct cells" and "0 < n" and "n < int (length cells)"
  shows "\<exists>pos neg.
     positive_clauses cells n = Inr pos \<and> negative_clauses cells n = Inr neg \<and>
     set pos = {map (lit_of True) ys | ys. subseq ys cells \<and> int (length ys) = int (length cells) - n + 1} \<and>
     set neg = {map (lit_of False) ys | ys. subseq ys cells \<and> int (length ys) = n + 1} \<and>
     length pos = length cells choose nat (int (length cells) - n + 1) \<and>
     length neg = length cells choose nat (n + 1) \<and>
     distinct (pos @ neg) \<and>
     generate_clauses od cells n st = insert_all od (pos @ neg) st \<and>
     (KB st = [] \<and> KB0 st = [] \<longrightarrow> generate_clauses od cells n st = Inr (st\<lparr>KB := pos @ neg\<rparr>))"
proof -
  define k1 where "k1 = nat (int (length cells) - n + 1)"
  define k2 where "k2 = nat (n + 1)"
  define pos where "pos = map (map (lit_of True)) (combinations cells k1)"
  define neg where "neg = map (map (lit_of False)) (combinations cells k2)"
  have k1: "int k1 = int (length cells) - n + 1" "2 \<le> k1" and k2: "int k2 = n + 1" "2 \<le> k2"
    using assms(3,4) by (simp_all add: k1_def k2_def)
  have p: "positive_clauses cells n = Inr pos"
    using assms(3,4) by (simp add: positive_clauses_def py_combinations_def pos_def k1_def)
  have q: "negative_clauses cells n = Inr neg"
    using assms(3) by (simp add: negative_clauses_def py_combinations_def neg_def k2_def)
  have sp: "set pos = {map (lit_of True) ys | ys. subseq ys cells \<and> int (length ys) = int (length cells) - n + 1}"
  proof -
    have "length ys = k1 \<longleftrightarrow> int (length ys) = int (length cells) - n + 1" for ys :: "(int \<times> int) list"
      using k1(1) by auto
    then have "set (combinations cells k1) =
        {ys. subseq ys cells \<and> int (length ys) = int (length cells) - n + 1}"
      using combinations_subseq [of _ cells k1] by blast
    then have "set pos = map (lit_of True) `
        {ys. subseq ys cells \<and> int (length ys) = int (length cells) - n + 1}"
      by (simp add: pos_def)
    then show ?thesis by (simp only: image_Collect)
  qed
  have sn: "set neg = {map (lit_of False) ys | ys. subseq ys cells \<and> int (length ys) = n + 1}"
  proof -
    have "length ys = k2 \<longleftrightarrow> int (length ys) = n + 1" for ys :: "(int \<times> int) list"
      using k2(1) by auto
    then have "set (combinations cells k2) = {ys. subseq ys cells \<and> int (length ys) = n + 1}"
      using combinations_subseq [of _ cells k2] by blast
    then have "set neg = map (lit_of False) ` {ys. subseq ys cells \<and> int (length ys) = n + 1}"
      by (simp add: neg_def)
    then show ?thesis by (simp only: image_Collect)
  qed
  have lp: "length pos = length cells choose k1" by (simp add: pos_def combinations_length)
  have ln: "length neg = length cells choose k2" by (simp add: neg_def combinations_length)
  have len_pos: "length c = k1" if "c \<in> set pos" for c
    using that by (auto simp: pos_def combinations_lengths)
  have len_neg: "length c = k2" if "c \<in> set neg" for c
    using that by (auto simp: neg_def combinations_lengths)
  have cross1: "\<not> set c \<subseteq> set d" if "c \<in> set pos" "d \<in> set neg" for c d
  proof -
    from that obtain ys zs where c: "c = map (lit_of True) ys" and d: "d = map (lit_of False) zs"
      by (auto simp: pos_def neg_def)
    from len_pos [OF that(1)] k1(2) c have "ys \<noteq> []" by auto
    from map_lit_of_cross [OF this, of True zs] c d show ?thesis by simp
  qed
  have cross2: "\<not> set d \<subseteq> set c" if "c \<in> set pos" "d \<in> set neg" for c d
  proof -
    from that obtain ys zs where c: "c = map (lit_of True) ys" and d: "d = map (lit_of False) zs"
      by (auto simp: pos_def neg_def)
    from len_neg [OF that(2)] k2(2) d have "zs \<noteq> []" by auto
    from map_lit_of_cross [OF this, of False ys] c d show ?thesis by simp
  qed
  have same_pos: "\<not> set c \<subseteq> set d" if "c \<in> set pos" "d \<in> set pos" "c \<noteq> d" for c d
  proof -
    from that(1,2) obtain ys zs where
      "c = map (lit_of True) ys" "ys \<in> set (combinations cells k1)"
      "d = map (lit_of True) zs" "zs \<in> set (combinations cells k1)"
      by (auto simp: pos_def)
    with hint_clauses_unrelated [OF assms(2), of ys k1 zs True] that(3) show ?thesis by simp
  qed
  have same_neg: "\<not> set c \<subseteq> set d" if "c \<in> set neg" "d \<in> set neg" "c \<noteq> d" for c d
  proof -
    from that(1,2) obtain ys zs where
      "c = map (lit_of False) ys" "ys \<in> set (combinations cells k2)"
      "d = map (lit_of False) zs" "zs \<in> set (combinations cells k2)"
      by (auto simp: neg_def)
    with hint_clauses_unrelated [OF assms(2), of ys k2 zs False] that(3) show ?thesis by simp
  qed
  have disj: "set pos \<inter> set neg = {}"
  proof (rule ccontr)
    assume "set pos \<inter> set neg \<noteq> {}"
    then obtain c where "c \<in> set pos" "c \<in> set neg" by auto
    from cross1 [OF this] show False by simp
  qed
  have dist: "distinct (pos @ neg)"
    using hint_clauses_distinct [OF assms(2)] disj by (simp add: pos_def neg_def)
  have gen: "generate_clauses od cells n st = insert_all od (pos @ neg) st"
    using assms(3,4) p q
    by (simp add: generate_clauses_def insert_all_append Let_def split: sum.splits)
  have fresh: "generate_clauses od cells n st = Inr (st\<lparr>KB := pos @ neg\<rparr>)"
    if e: "KB st = []" "KB0 st = []"
  proof -
    have "insert_all od (pos @ neg) st = Inr (st\<lparr>KB := KB st @ (pos @ neg)\<rparr>)"
    proof (rule insert_all_fresh [OF assms(1) e(2) _ dist])
      show "\<forall>c\<in>set (pos @ neg). length c \<noteq> 1"
        using len_pos len_neg k1(2) k2(2) by auto
      show "\<forall>c\<in>set (pos @ neg). \<forall>d\<in>set (KB st). \<not> set c \<subseteq> set d \<and> \<not> set d \<subseteq> set c"
        using e(1) by simp
      show "\<forall>c\<in>set (pos @ neg). \<forall>d\<in>set (pos @ neg). c \<noteq> d \<longrightarrow> \<not> set c \<subseteq> set d"
        using same_pos same_neg cross1 cross2 by auto
    qed
    with gen e(1) show ?thesis by simp
  qed
  from p q sp sn lp ln dist gen fresh show ?thesis
    unfolding k1_def k2_def by blast
qed

lemma choose_8_7: "(8::nat) choose 7 = 8"
  by code_simp

lemma choose_8_3: "(8::nat) choose 3 = 56"
  by code_simp

lemma board3_hint:
  "game_get_unmarked_neighbors_and_mine_count board3_opened 1 1 = Inr (cells8, 2)"
  by (simp add: game_get_unmarked_neighbors_and_mine_count_def neighborhood_def upto.simps
        board3_opened_def board3_def cell_at_def py_index_def hidden_def shown_def cells8_def)

lemma board3_opened_by_mark_safe: "game_mark_safe board3 1 1 = Inr board3_opened"
  by (simp add: game_mark_safe_def cell_at_def py_index_def put_cell_def py_position_def
        board3_opened_def board3_def hidden_def shown_def)

theorem generate_clauses_hint_witness:
  "order_ok first_seen \<and> distinct cells8 \<and> (0::int) < 2 \<and> (2::int) < int (length cells8) \<and>
   game_get_unmarked_neighbors_and_mine_count board3_opened 1 1 = Inr (cells8, 2) \<and>
   KB blank = [] \<and> KB0 blank = [] \<and>
   (\<exists>pos neg. generate_clauses first_seen cells8 2 blank = Inr (blank\<lparr>KB := pos @ neg\<rparr>) \<and>
      length pos = 8 \<and> length neg = 56 \<and> distinct (pos @ neg) \<and>
      set pos = {map (lit_of True) ys | ys. subseq ys cells8 \<and> int (length ys) = 7} \<and>
      set neg = {map (lit_of False) ys | ys. subseq ys cells8 \<and> int (length ys) = 3})"
proof -
  have d: "distinct cells8" by (simp add: cells8_def)
  have l: "length cells8 = 8" by (simp add: cells8_def)
  have b: "KB blank = []" "KB0 blank = []" by (simp_all add: blank_def init_player_def)
  have "(0::int) < 2" "(2::int) < int (length cells8)" using l by simp_all
  from generate_clauses_hint [OF order_ok_first_seen d this, of blank] obtain pos neg where
    pn: "set pos = {map (lit_of True) ys | ys. subseq ys cells8 \<and> int (length ys) = int (length cells8) - 2 + 1}"
        "set neg = {map (lit_of False) ys | ys. subseq ys cells8 \<and> int (length ys) = 2 + 1}"
        "length pos = length cells8 choose nat (int (length cells8) - 2 + 1)"
        "length neg = length cells8 choose nat (2 + 1)"
        "distinct (pos @ neg)"
        "KB blank = [] \<and> KB0 blank = [] \<longrightarrow>
           generate_clauses first_seen cells8 2 blank = Inr (blank\<lparr>KB := pos @ neg\<rparr>)"
    by blast
  have "length pos = 8" using pn(3) l choose_8_7 by simp
  moreover have "length neg = 56" using pn(4) l choose_8_3 by simp
  moreover have "set pos = {map (lit_of True) ys | ys. subseq ys cells8 \<and> int (length ys) = 7}"
    using pn(1) l by simp
  moreover have "set neg = {map (lit_of False) ys | ys. subseq ys cells8 \<and> int (length ys) = 3}"
    using pn(2) by simp
  moreover have "generate_clauses first_seen cells8 2 blank = Inr (blank\<lparr>KB := pos @ neg\<rparr>)"
    using pn(6) b by simp
  ultimately have "\<exists>pos neg. generate_clauses first_seen cells8 2 blank = Inr (blank\<lparr>KB := pos @ neg\<rparr>) \<and>
      length pos = 8 \<and> length neg = 56 \<and> distinct (pos @ neg) \<and>
      set pos = {map (lit_of True) ys | ys. subseq ys cells8 \<and> int (length ys) = 7} \<and>
      set neg = {map (lit_of False) ys | ys. subseq ys cells8 \<and> int (length ys) = 3}"
    using pn(5) by blast
  with order_ok_first_seen d l b board3_hint show ?thesis by simp
qed

section \<open>The failing runs do not depend on the order of iteration\<close>

lemma every_order_breaks_minimality:
  assumes "order_ok od"
  shows "\<exists>st'. insert_all od [[negate lit_A, lit_B], [lit_B, lit_C], [lit_A]] blank = Inr st' \<and>
           set (KB st') = {[lit_B, lit_C], [lit_B], [lit_A]}"
proof -
  have b: "KB blank = []" "KB0 blank = []" by (simp_all add: blank_def init_player_def)
  define st1 where "st1 = blank\<lparr>KB := [[negate lit_A, lit_B]]\<rparr>"
  define st2 where "st2 = blank\<lparr>KB := [[negate lit_A, lit_B], [lit_B, lit_C]]\<rparr>"
  have s1: "insert_clause_to_KB od [negate lit_A, lit_B] blank = Inr (st1, Some [negate lit_A, lit_B])"
    using insert_fresh [OF assms, of blank "[negate lit_A, lit_B]"] b by (simp add: st1_def)
  have s2: "insert_clause_to_KB od [lit_B, lit_C] st1 = Inr (st2, Some [lit_B, lit_C])"
    using insert_fresh [OF assms, of st1 "[lit_B, lit_C]"] b
    by (simp add: st1_def st2_def lits)
  have "\<exists>kb. insert_clause_to_KB od [lit_A] st2 = Inr (st2\<lparr>KB := kb\<rparr>, Some [lit_A]) \<and>
      set kb = insert [lit_A] ({c \<in> set (KB st2). lit_A \<notin> set c \<and> negate lit_A \<notin> set c} \<union>
        {without (negate lit_A) c | c. c \<in> set (KB st2) \<and> lit_A \<notin> set c \<and> negate lit_A \<in> set c})"
    using b by (intro insert_single [OF assms]) (simp_all add: st2_def lits)
  then obtain kb where
    s3: "insert_clause_to_KB od [lit_A] st2 = Inr (st2\<lparr>KB := kb\<rparr>, Some [lit_A])" and
    kb: "set kb = insert [lit_A] ({c \<in> set (KB st2). lit_A \<notin> set c \<and> negate lit_A \<notin> set c} \<union>
        {without (negate lit_A) c | c. c \<in> set (KB st2) \<and> lit_A \<notin> set c \<and> negate lit_A \<in> set c})"
    by blast
  have keep: "{c \<in> set (KB st2). lit_A \<notin> set c \<and> negate lit_A \<notin> set c} = {[lit_B, lit_C]}"
    by (auto simp: st2_def lits)
  have "{c. c \<in> set (KB st2) \<and> lit_A \<notin> set c \<and> negate lit_A \<in> set c} = {[negate lit_A, lit_B]}"
    by (auto simp: st2_def lits)
  then have "{without (negate lit_A) c | c. c \<in> set (KB st2) \<and> lit_A \<notin> set c \<and> negate lit_A \<in> set c}
      = without (negate lit_A) ` {[negate lit_A, lit_B]}"
    by (simp only: setcompr_eq_image)
  then have short: "{without (negate lit_A) c | c. c \<in> set (KB st2) \<and> lit_A \<notin> set c \<and> negate lit_A \<in> set c}
      = {[lit_B]}"
    by (simp add: without_def lits)
  have "set kb = {[lit_B, lit_C], [lit_B], [lit_A]}"
    unfolding kb keep short by auto
  with s1 s2 s3 show ?thesis by simp
qed

lemma every_order_stores_committed_clause:
  assumes "order_ok od"
  shows "insert_clause_to_KB od [lit_A, lit_B] kb0_A
           = Inr (kb0_A\<lparr>KB := [[lit_A, lit_B]]\<rparr>, Some [lit_A, lit_B])"
proof -
  have li: "iter_ok (lit_order od)" and ci: "iter_ok (clause_order od)"
    using assms by (simp_all add: order_ok_def)
  have k: "KB kb0_A = []" "KB0 kb0_A = [[lit_A]]"
    by (simp_all add: kb0_A_def blank_def init_player_def lits)
  have c0: "clause_order od [[lit_A]] = [[lit_A]]" by (rule iter_ok_single [OF ci])
  have up: "unit_propagation od [lit_A, lit_B] kb0_A = Inr kb0_A"
    by (simp add: unit_propagation_def k c0 iter_ok_Nil [OF ci])
  have "complementary_literals (lit_order od) [lit_A, lit_B] [lit_A] = []"
    by (auto simp: complementary_literals_def filter_empty_conv iter_ok_set [OF li] lits)
  then have res: "resolve (lit_order od) [lit_A, lit_B] [lit_A] = None"
    by (simp add: resolve_def)
  show ?thesis
    by (simp add: insert_clause_to_KB_def up k c0 res truthy_def iter_ok_Nil [OF ci] set_add_def Let_def)
qed

lemma shortened_insert:
  assumes "order_ok od" and "KB0 st = [[negate l]]" and "l \<in> set clause"
    and "negate l \<notin> set clause" and "length clause \<noteq> 1" and "clause \<notin> set (KB st)"
    and "set clause - {l} \<noteq> {}"
  shows "\<exists>st' r. insert_clause_to_KB od clause st = Inr (st', r) \<and>
           (\<exists>c\<in>set (KB st'). set c = set clause - {l})"
proof -
  have li: "iter_ok (lit_order od)" and ci: "iter_ok (clause_order od)"
    using assms(1) by (simp_all add: order_ok_def)
  have c0: "clause_order od [[negate l]] = [[negate l]]" by (rule iter_ok_single [OF ci])
  have c1: "clause_order od [without l clause] = [without l clause]"
    by (rule iter_ok_single [OF ci])
  define st1 where "st1 = st\<lparr>KB := set_add (without l clause) (KB st)\<rparr>"
  have sc: "scan_KB0 clause [[negate l]] = Inr [without l clause]"
    using assms(3,4) by simp
  have up: "unit_propagation od clause st = Inr st1"
    using assms(5) sc
    by (cases clause rule: list.exhaust; cases "tl clause")
       (auto simp: unit_propagation_def assms(2) c0 iter_ok_single [OF ci] iter_ok_Nil [OF ci] st1_def
             simp del: scan_KB0.simps split: list.splits)
  have nk0: "clause \<notin> set (KB0 st)"
    using assms(2,5) by auto
  have "complementary_pairs clause [negate l] = {l}"
    using assms(3) by (auto simp: complementary_pairs_def)
  from resolve_one [OF li this] obtain r where
    r: "resolve (lit_order od) clause [negate l] = Some r" "set r = set clause - {l}"
    by auto
  have "r \<noteq> []"
  proof
    assume "r = []"
    then have "set r = {}" by simp
    with r(2) assms(7) show False by simp
  qed
  with r(1) have fc: "final_clause od clause st = r"
    by (simp add: final_clause_def assms(2) c0 truthy_def)
  have short: "without l clause \<in> set (KB st1)" by (simp add: st1_def)
  from insert_shape [OF assms(1,6) nk0 up]
  show ?thesis
  proof
    assume "subsumption_scan (lit_order od) (final_clause od clause st) (clause_order od (KB st1)) = Redundant
        \<and> insert_clause_to_KB od clause st = Inr (st1, None)"
    then have "insert_clause_to_KB od clause st = Inr (st1, None)" by simp
    moreover have "set (without l clause) = set clause - {l}" by simp
    ultimately show ?thesis using short by blast
  next
    assume "\<exists>kb. insert_clause_to_KB od clause st = Inr (st1\<lparr>KB := kb\<rparr>, Some (final_clause od clause st))
        \<and> final_clause od clause st \<in> set kb"
    then obtain kb where kb: "insert_clause_to_KB od clause st = Inr (st1\<lparr>KB := kb\<rparr>, Some r)" "r \<in> set kb"
      using fc by auto
    from kb(2) have "r \<in> set (KB (st1\<lparr>KB := kb\<rparr>))" by simp
    with kb(1) r(2) show ?thesis by blast
  qed
qed

lemma every_order_rejection_mutates:
  assumes "order_ok od"
  shows "\<exists>st' r. insert_clause_to_KB od [lit_A, lit_B, lit_C] kb_B_after_not_A = Inr (st', r) \<and>
           set (KB st') \<noteq> set (KB kb_B_after_not_A)"
proof -
  have k: "KB kb_B_after_not_A = [[lit_B]]" "KB0 kb_B_after_not_A = [[negate lit_A]]"
    by (simp_all add: kb_B_after_not_A_def lits)
  have "\<exists>st' r. insert_clause_to_KB od [lit_A, lit_B, lit_C] kb_B_after_not_A = Inr (st', r) \<and>
           (\<exists>c\<in>set (KB st'). set c = set [lit_A, lit_B, lit_C] - {lit_A})"
    by (rule shortened_insert [OF assms k(2)]) (simp_all add: k(1) lits)
  then obtain st' r c where
    i: "insert_clause_to_KB od [lit_A, lit_B, lit_C] kb_B_after_not_A = Inr (st', r)" and
    c: "c \<in> set (KB st')" "set c = set [lit_A, lit_B, lit_C] - {lit_A}"
    by blast
  have "lit_C \<in> set c" unfolding c(2) by (simp add: lits)
  then have "c \<noteq> [lit_B]" by (auto simp: lits)
  with c(1) have "set (KB st') \<noteq> {[lit_B]}" by blast
  with i k(1) show ?thesis by auto
qed

text \<open>
  C8 (the code breaks it). With \<open>(\<not>A)\<close> committed and the tuple \<open>(A, B)\<close> stored,
  inserting the same tuple is a no-op, but inserting \<open>(B, A)\<close>, the same clause as a set
  of literals, is not: the guard compares tuples, the insertion runs, unit propagation
  stores \<open>(B)\<close>, and \<open>KB\<close> changes. This holds for every order in which Python walks
  its sets.
\<close>

theorem permuted_insert_changes_KB:
  assumes "order_ok od"
  shows "set [lit_B, lit_A] = set [lit_A, lit_B] \<and>
         [lit_A, lit_B] \<in> set (KB kb_AB_after_not_A) \<and>
         insert_clause_to_KB od [lit_A, lit_B] kb_AB_after_not_A = Inr (kb_AB_after_not_A, None) \<and>
         (\<exists>st' r. insert_clause_to_KB od [lit_B, lit_A] kb_AB_after_not_A = Inr (st', r) \<and>
            (\<exists>c\<in>set (KB st'). set c = {lit_B}) \<and>
            set (KB st') \<noteq> set (KB kb_AB_after_not_A))"
proof -
  have k: "KB kb_AB_after_not_A = [[lit_A, lit_B]]" "KB0 kb_AB_after_not_A = [[negate lit_A]]"
    by (simp_all add: kb_AB_after_not_A_def lits)
  have same: "insert_clause_to_KB od [lit_A, lit_B] kb_AB_after_not_A = Inr (kb_AB_after_not_A, None)"
    by (simp add: insert_clause_to_KB_def k(1))
  have "\<exists>st' r. insert_clause_to_KB od [lit_B, lit_A] kb_AB_after_not_A = Inr (st', r) \<and>
           (\<exists>c\<in>set (KB st'). set c = set [lit_B, lit_A] - {lit_A})"
    by (rule shortened_insert [OF assms k(2)]) (simp_all add: k(1) lits)
  then obtain st' r c where
    i: "insert_clause_to_KB od [lit_B, lit_A] kb_AB_after_not_A = Inr (st', r)" and
    c: "c \<in> set (KB st')" "set c = set [lit_B, lit_A] - {lit_A}"
    by blast
  have sb: "set [lit_B, lit_A] - {lit_A} = {lit_B}" by (auto simp: lits)
  with c(2) have cB: "set c = {lit_B}" by simp
  have "lit_A \<notin> set c" unfolding cB by (simp add: lits)
  then have "c \<noteq> [lit_A, lit_B]" by auto
  with c(1) have "set (KB st') \<noteq> {[lit_A, lit_B]}" by blast
  then have ne: "set (KB st') \<noteq> set (KB kb_AB_after_not_A)" by (simp add: k(1))
  have p: "set [lit_B, lit_A] = set [lit_A, lit_B]" by auto
  have m: "[lit_A, lit_B] \<in> set (KB kb_AB_after_not_A)" by (simp add: k(1))
  from c(1) cB have b: "\<exists>c\<in>set (KB st'). set c = {lit_B}" by (rule bexI [rotated])
  have "\<exists>st' r. insert_clause_to_KB od [lit_B, lit_A] kb_AB_after_not_A = Inr (st', r) \<and>
            (\<exists>c\<in>set (KB st'). set c = {lit_B}) \<and>
            set (KB st') \<noteq> set (KB kb_AB_after_not_A)"
    using i b ne by (intro exI [of _ st'] exI [of _ r] conjI)
  with p m same show ?thesis by (intro conjI)
qed

theorem permuted_insert_changes_KB_witness:
  "order_ok first_seen \<and>
   insert_clause_to_KB first_seen [lit_A, lit_B] kb_AB_after_not_A = Inr (kb_AB_after_not_A, None) \<and>
   (\<exists>st' r. insert_clause_to_KB first_seen [lit_B, lit_A] kb_AB_after_not_A = Inr (st', r) \<and>
      set (KB st') \<noteq> set (KB kb_AB_after_not_A))"
proof -
  from permuted_insert_changes_KB [OF order_ok_first_seen] obtain st' r where
    same: "insert_clause_to_KB first_seen [lit_A, lit_B] kb_AB_after_not_A = Inr (kb_AB_after_not_A, None)" and
    i: "insert_clause_to_KB first_seen [lit_B, lit_A] kb_AB_after_not_A = Inr (st', r)" and
    ne: "set (KB st') \<noteq> set (KB kb_AB_after_not_A)"
    by blast
  have "\<exists>st' r. insert_clause_to_KB first_seen [lit_B, lit_A] kb_AB_after_not_A = Inr (st', r) \<and>
      set (KB st') \<noteq> set (KB kb_AB_after_not_A)"
    using i ne by (intro exI [of _ st'] exI [of _ r] conjI)
  with order_ok_first_seen same show ?thesis by (intro conjI)
qed

text \<open>
  A second insertion can differ from the first only through the order in which \<open>KB\<close> is
  walked. With \<open>(\<not>A)\<close> and \<open>(\<not>B)\<close> committed and \<open>KB\<close> empty, under the order
  \<open>first_seen\<close> the first insertion of \<open>(A \<or> B \<or> C)\<close> leaves \<open>(A \<or> C)\<close> and \<open>(C)\<close>
  and the second leaves \<open>(C)\<close> and \<open>(B \<or> C)\<close>: each call's unit propagation stores
  the shortened clauses again and the subsumption loop removes only the first superset
  it meets.
\<close>

lemma double_insert_under_first_seen:
  "insert_clause_to_KB first_seen [lit_A, lit_B, lit_C] kb0_not_A_not_B
     = Inr (kb0_not_A_not_B\<lparr>KB := [[lit_A, lit_C], [lit_C]]\<rparr>, Some [lit_C]) \<and>
   insert_clause_to_KB first_seen [lit_A, lit_B, lit_C] (kb0_not_A_not_B\<lparr>KB := [[lit_A, lit_C], [lit_C]]\<rparr>)
     = Inr (kb0_not_A_not_B\<lparr>KB := [[lit_C], [lit_B, lit_C]]\<rparr>, Some [lit_C]) \<and>
   [lit_B, lit_C] \<notin> set [[lit_A, lit_C], [lit_C]]"
proof (intro conjI)
  show "insert_clause_to_KB first_seen [lit_A, lit_B, lit_C] kb0_not_A_not_B
     = Inr (kb0_not_A_not_B\<lparr>KB := [[lit_A, lit_C], [lit_C]]\<rparr>, Some [lit_C])"
    by (simp add: run_defs state_defs)
  show "insert_clause_to_KB first_seen [lit_A, lit_B, lit_C] (kb0_not_A_not_B\<lparr>KB := [[lit_A, lit_C], [lit_C]]\<rparr>)
     = Inr (kb0_not_A_not_B\<lparr>KB := [[lit_C], [lit_B, lit_C]]\<rparr>, Some [lit_C])"
    by (simp add: run_defs state_defs)
  show "[lit_B, lit_C] \<notin> set [[lit_A, lit_C], [lit_C]]"
    by (simp add: lits)
qed

end
